theory Spec2Isabelle
  imports Main "HOL-Library.Word"
begin

unbundle bit_operations_syntax

section \<open>Composable Binary Encoding: the data model\<close>

text \<open>
  Blob contents and encodings are Go byte slices, modelled as lists of 8-bit words.
  Lengths and offsets are Go \<open>int\<close>s that are never negative and never leave the
  range of a slice length; they are modelled as \<open>nat\<close>, and the conversion
  \<open>byte(n)\<close> (which keeps the low eight bits) as \<open>of_nat\<close> into \<open>8 word\<close>.
\<close>

type_synonym byte = "8 word"

text \<open>The error values that the packages return.\<close>

datatype error =
    EOF               \<comment> \<open>\<open>io.EOF\<close>\<close>
  | ErrUnexpectedEOF  \<comment> \<open>\<open>io.ErrUnexpectedEOF\<close>\<close>
  | TooLong           \<comment> \<open>\<open>errors.New("blob content too long")\<close>\<close>
  | ShortWrite        \<comment> \<open>\<open>errors.New("short write")\<close>\<close>
  | ErrShortWrite     \<comment> \<open>\<open>io.ErrShortWrite\<close>\<close>
  | TooLargeForUint64 \<comment> \<open>\<open>errors.New("integer value too large for uint64")\<close>\<close>
  | IOError nat       \<comment> \<open>any other error of a reader or a writer\<close>

text \<open>The Go slice expression \<open>buf[lo:hi]\<close>, for \<open>lo \<le> hi \<le> len(buf)\<close>.\<close>

definition slice :: "'a list \<Rightarrow> nat \<Rightarrow> nat \<Rightarrow> 'a list" where
  "slice buf lo hi = take (hi - lo) (drop lo buf)"

section \<open>The small-only contiguous codec (\<open>cbe.go\<close>)\<close>

text \<open>
  \<open>Encode(dst, src)\<close> of the small-only package. The result \<open>None\<close> is the panic
  \<open>"content too large for small-blob encoder"\<close>.
\<close>

definition Encode_small :: "byte list \<Rightarrow> byte list \<Rightarrow> byte list option" where
  "Encode_small dst src =
     (let n = length src in
      if n = 1 \<and> src ! 0 < 128 then Some (dst @ src)
      else if n < 64 then Some ((dst @ [of_nat (128 + n)]) @ src)
      else if n < 16448 then
        (let n = n - 64 in
         Some ((dst @ [0xc0 + of_nat (drop_bit 8 n), of_nat n]) @ src))
      else None)"

text \<open>
  \<open>decodeHeader(buf)\<close> of the small-only package: the content offset and the content
  length, or an error.
\<close>

definition decodeHeader_small :: "byte list \<Rightarrow> error + (nat \<times> nat)" where
  "decodeHeader_small buf =
     (if length buf = 0 then Inl EOF
      else if buf ! 0 < 128 then Inr (0, 1)
      else if buf ! 0 \<noteq> 129 \<and> buf ! 0 < 128 + 64 then Inr (1, unat (buf ! 0 - 128))
      else if length buf < 2 then Inl EOF
      else if buf ! 0 = 129 \<and> buf ! 1 \<ge> 128 then Inr (1, 1)
      else if buf ! 0 \<ge> 128 + 64 then
        Inr (2, 64 + push_bit 8 (unat (buf ! 0 AND 63)) + unat (buf ! 1))
      else Inl TooLong)"

text \<open>\<open>Decode(buf)\<close> of the small-only package: the content and the remainder.\<close>

definition Decode_small :: "byte list \<Rightarrow> error + (byte list \<times> byte list)" where
  "Decode_small buf =
     (case decodeHeader_small buf of
        Inl err \<Rightarrow> Inl err
      | Inr (ofs, n) \<Rightarrow>
          if length buf < ofs + n then Inl EOF
          else Inr (slice buf ofs (ofs + n), drop (ofs + n) buf))"

section \<open>The full contiguous codec (\<open>cbe/cbe.go\<close>)\<close>

text \<open>
  \<open>decodeHeader(buf)\<close> of the full package: the data offset, the data length and
  whether the chunk is partial, or an error.
\<close>

definition decodeHeader :: "byte list \<Rightarrow> error + (nat \<times> nat \<times> bool)" where
  "decodeHeader buf =
     (if length buf = 0 then Inl EOF
      else if buf ! 0 < 128 then Inr (0, 1, False)
      else if buf ! 0 \<noteq> 129 \<and> buf ! 0 < 128 + 64 then
        Inr (1, unat (buf ! 0 - 128), False)
      else if length buf < 2 then Inl EOF
      else if buf ! 0 = 129 \<and> buf ! 1 \<ge> 128 then Inr (1, 1, False)
      else if buf ! 0 \<ge> 128 + 64 then
        Inr (2, 64 + push_bit 8 (unat (buf ! 0 AND 63)) + unat (buf ! 1), False)
      else if length buf < 4 then Inl EOF
      else
        (let part = (buf ! 1 \<ge> 0x40) in
         Inr (4, 16448 + push_bit 16 (unat (buf ! 1 AND 0x3f))
                   + push_bit 8 (unat (buf ! 2)) + unat (buf ! 3), part)))"

lemma decodeHeader_partial_ofs:
  "decodeHeader buf = Inr (ofs, n, True) \<Longrightarrow> ofs = 4 \<and> 4 \<le> length buf"
  by (auto simp: decodeHeader_def Let_def split: if_splits)

text \<open>
  Go's \<open>append(content, xs...)\<close> on a slice that may be \<open>nil\<close> (\<open>None\<close>):
  appending nothing to \<open>nil\<close> leaves \<open>nil\<close>.
\<close>

definition go_append :: "byte list option \<Rightarrow> byte list \<Rightarrow> byte list option" where
  "go_append content xs =
     (case content of
        None \<Rightarrow> if xs = [] then None else Some xs
      | Some ys \<Rightarrow> Some (ys @ xs))"

text \<open>The bytes of a slice that may be \<open>nil\<close>.\<close>

definition bytes_of :: "byte list option \<Rightarrow> byte list" where
  "bytes_of content = (case content of None \<Rightarrow> [] | Some ys \<Rightarrow> ys)"

text \<open>
  The loop of \<open>Decode(buf)\<close>, with its two loop variables: \<open>content\<close> (initially
  \<open>nil\<close>) and \<open>buf\<close>.
\<close>

function Decode_loop :: "byte list option \<Rightarrow> byte list \<Rightarrow> error + (byte list \<times> byte list)" where
  "Decode_loop content buf =
     (case decodeHeader buf of
        Inl err \<Rightarrow> Inl err
      | Inr (ofs, n, part) \<Rightarrow>
          if length buf < ofs + n then Inl EOF
          else if \<not> part \<and> content = None then
            Inr (slice buf ofs (ofs + n), drop (ofs + n) buf)
          else
            (let content' = go_append content (slice buf ofs (ofs + n));
                 buf' = drop (ofs + n) buf
             in if \<not> part then Inr (bytes_of content', buf')
                else Decode_loop content' buf'))"
  by pat_completeness auto
termination
proof (relation "measure (\<lambda>(content, buf). length buf)", goal_cases)
  case 1
  show ?case by simp
next
  case (2 content buf x2 ofs y n part content' buf')
  then have "decodeHeader buf = Inr (ofs, n, True)" by simp
  then have "ofs = 4 \<and> 4 \<le> length buf" by (rule decodeHeader_partial_ofs)
  with 2 show ?case by simp
qed

declare Decode_loop.simps [simp del]

definition Decode :: "byte list \<Rightarrow> error + (byte list \<times> byte list)" where
  "Decode buf = Decode_loop None buf"

section \<open>The streaming encoder of package \<open>cbe\<close>, after the specification\<close>

text \<open>
  Modelled from the spec: the streaming \<open>Encoder\<close> of package \<open>cbe\<close>
  (\<open>NewEncoder\<close>, \<open>SetChunkLen\<close>, \<open>Bytes\<close> and the constant \<open>MaxChunkLen\<close>), which
  \<open>Encode\<close> of \<open>cbe/cbe.go\<close> calls for contents of 4210752 bytes and more. Its
  source is missing; the package's tests (\<open>TestEncoder\<close> of \<open>cbe_test.go\<close>) and
  this caller are there. The streaming encoder of package \<open>cbs\<close> further down is
  another encoder, with another header grammar.

  The header of a chunk follows the emit operation of the header codec (the shortest
  legal header for a payload and a role) in the grammar that the specification makes
  authoritative: two-byte headers count from 64 and four-byte headers from 16448. A
  chunk never has more than 4210751 bytes of payload, and a partial chunk never less
  than 16448; the last branch is for the payloads from 16448 bytes on.
\<close>

definition spec_emit_header :: "bool \<Rightarrow> byte list \<Rightarrow> byte list" where
  "spec_emit_header partial payload =
     (let L = length payload in
      if partial then
        (let m = L - 16448 in
         [0x81, 0x40 OR of_nat (drop_bit 16 m), of_nat (drop_bit 8 m) AND 0xFF, of_nat m AND 0xFF])
      else if L = 0 then [0x80]
      else if L = 1 \<and> payload ! 0 < 128 then []
      else if L = 1 then [0x81]
      else if L \<le> 63 then [0x80 OR of_nat L]
      else if L \<le> 16447 then
        (let m = L - 64 in [0xC0 OR of_nat (drop_bit 8 m), of_nat m AND 0xFF])
      else
        (let m = L - 16448 in
         [0x81, 0x00 OR of_nat (drop_bit 16 m), of_nat (drop_bit 8 m) AND 0xFF, of_nat m AND 0xFF]))"

text \<open>
  Modelled from the spec: the maximum chunk size of the streaming encoder
  (\<open>MAX_CHUNK\<close> of the chunk-size bounds).
\<close>

definition spec_MaxChunkLen :: nat where
  "spec_MaxChunkLen = 2113535"

text \<open>
  Modelled from the spec: the operation \<open>pump(source)\<close> of the streaming encoder on a
  memory source and a memory sink, as the bytes appended to the sink. Each turn of the
  loop reads as many bytes as the chunk size allows; a full read (which did not meet
  the end of the input) gives a partial chunk and another turn, anything else the final
  chunk. The configured chunk size is never 0 (it lies between 16384 and 2113535).
\<close>

function spec_pump :: "nat \<Rightarrow> byte list \<Rightarrow> byte list" where
  "spec_pump chunk_size source =
     (if 0 < chunk_size \<and> chunk_size \<le> length source then
        spec_emit_header True (take chunk_size source) @ take chunk_size source
          @ spec_pump chunk_size (drop chunk_size source)
      else spec_emit_header False source @ source)"
  by pat_completeness auto
termination
  by (relation "measure (\<lambda>(chunk_size, source). length source)") auto

declare spec_pump.simps [simp del]

text \<open>
  \<open>Encode(dst, src)\<close> of the full package. The last branch hands the content to the
  streaming encoder with the maximum chunk size, writing into a buffer that starts
  as \<open>dst\<close>; a memory source and a memory sink report no error, so the panic of that
  branch is never reached.
\<close>

definition Encode :: "byte list \<Rightarrow> byte list \<Rightarrow> byte list" where
  "Encode dst src =
     (let n = length src in
      if n = 1 \<and> src ! 0 < 128 then dst @ src
      else if n < 64 then (dst @ [of_nat (128 + n)]) @ src
      else if n < 16448 then
        (let n = n - 64 in
         (dst @ [0xc0 + of_nat (drop_bit 8 n), of_nat n]) @ src)
      else if n < 4210752 then
        (let n = n - 16448 in
         (dst @ [0x81, 0x00 + of_nat (drop_bit 16 n), of_nat (drop_bit 8 n), of_nat n]) @ src)
      else dst @ spec_pump spec_MaxChunkLen src)"

section \<open>Sources and sinks\<close>

text \<open>
  An \<open>io.Reader\<close> over a finite sequence of bytes: the bytes it has not delivered yet
  and the error it reports once they are used up (\<open>io.EOF\<close> for a source that simply
  ends, as a \<open>bytes.Reader\<close> does).
\<close>

record Reader =
  rdata :: "byte list"
  rerr :: error

definition NewReader :: "byte list \<Rightarrow> Reader" where
  "NewReader b = \<lparr>rdata = b, rerr = EOF\<rparr>"

text \<open>
  \<open>io.ReadFull(r, p)\<close>: reads until \<open>p\<close> is full or the source fails. The result
  is the number of bytes read, the error, the slice \<open>p\<close> after the read and the
  reader. A full read reports no error; a source that ends reports \<open>io.EOF\<close> when
  nothing was read and \<open>io.ErrUnexpectedEOF\<close> after a short read.
\<close>

definition ReadFull :: "Reader \<Rightarrow> byte list \<Rightarrow> nat \<times> error option \<times> byte list \<times> Reader" where
  "ReadFull r p =
     (let got = take (length p) (rdata r);
          n = length got;
          r' = r\<lparr>rdata := drop n (rdata r)\<rparr>;
          p' = got @ drop n p
      in if n \<ge> length p then (n, None, p', r')
         else if n > 0 \<and> rerr r = EOF then (n, Some ErrUnexpectedEOF, p', r')
         else (n, Some (rerr r), p', r'))"

text \<open>
  \<open>ReadByte\<close> and \<open>UnreadByte\<close> of a \<open>bufio.Reader\<close>. \<open>UnreadByte\<close> puts back the
  byte that the \<open>ReadByte\<close> before it returned, which the caller hands over here.
\<close>

definition ReadByte :: "Reader \<Rightarrow> (error + byte) \<times> Reader" where
  "ReadByte r =
     (case rdata r of
        [] \<Rightarrow> (Inl (rerr r), r)
      | b # bs \<Rightarrow> (Inr b, r\<lparr>rdata := bs\<rparr>))"

definition UnreadByte :: "byte \<Rightarrow> Reader \<Rightarrow> Reader" where
  "UnreadByte b r = r\<lparr>rdata := b # rdata r\<rparr>"

text \<open>
  An \<open>io.Writer\<close>: the bytes it accepted, one entry for each call of \<open>Write\<close>, the
  number of bytes it still accepts (\<open>None\<close>: no bound, as for a \<open>bytes.Buffer\<close>, which
  never reports an error) and the error it reports when it accepts less than it is
  given.
\<close>

record Writer =
  wlog :: "byte list list"
  wroom :: "nat option"
  werr :: error

definition NewBuffer :: Writer where
  "NewBuffer = \<lparr>wlog = [], wroom = None, werr = ErrShortWrite\<rparr>"

definition Write :: "Writer \<Rightarrow> byte list \<Rightarrow> nat \<times> error option \<times> Writer" where
  "Write w p =
     (case wroom w of
        None \<Rightarrow> (length p, None, w\<lparr>wlog := wlog w @ [p]\<rparr>)
      | Some k \<Rightarrow>
          if length p \<le> k then
            (length p, None, w\<lparr>wlog := wlog w @ [p], wroom := Some (k - length p)\<rparr>)
          else (k, Some (werr w), w\<lparr>wlog := wlog w @ [take k p], wroom := Some 0\<rparr>))"

text \<open>Everything a sink has accepted, in order.\<close>

definition written :: "Writer \<Rightarrow> byte list" where
  "written w = concat (wlog w)"

section \<open>The streaming encoder (package \<open>cbs\<close>)\<close>

definition MinChunkLen :: nat where
  "MinChunkLen = 0x4000"

definition MaxChunkLen :: nat where
  "MaxChunkLen = 0x203fff"

definition defaultChunkLen :: nat where
  "defaultChunkLen = MinChunkLen"

text \<open>
  The \<open>Encoder\<close>: its writer \<open>e.w\<close> and its chunk buffer \<open>e.buf\<close>. The slice
  \<open>e.buf\<close> is \<open>nil\<close> (\<open>None\<close>) or holds \<open>len(e.buf)\<close> bytes; \<open>enc_spare\<close> holds the
  bytes of its backing array beyond its length, so that \<open>cap(e.buf)\<close> is the length
  of both together.
\<close>

record Encoder =
  enc_w :: Writer
  enc_buf :: "byte list option"
  enc_spare :: "byte list"

definition NewEncoder :: "Writer \<Rightarrow> Encoder" where
  "NewEncoder wr = \<lparr>enc_w = wr, enc_buf = None, enc_spare = []\<rparr>"

definition getBuf :: "Encoder \<Rightarrow> byte list \<times> Encoder" where
  "getBuf e =
     (case enc_buf e of
        None \<Rightarrow>
          (let b = replicate (4 + defaultChunkLen) 0
           in (b, e\<lparr>enc_buf := Some b, enc_spare := []\<rparr>))
      | Some b \<Rightarrow> (b, e))"

definition ChunkLen :: "Encoder \<Rightarrow> nat \<times> Encoder" where
  "ChunkLen e = (case getBuf e of (b, e') \<Rightarrow> (length b - 4, e'))"

text \<open>\<open>SetChunkLen\<close>; the result \<open>None\<close> is one of its two panics.\<close>

definition SetChunkLen :: "nat \<Rightarrow> Encoder \<Rightarrow> Encoder option" where
  "SetChunkLen chunkLen e =
     (if chunkLen < MinChunkLen then None
      else if chunkLen > MaxChunkLen then None
      else
        (let bufLen = 4 + chunkLen;
             arr = bytes_of (enc_buf e) @ enc_spare e
         in if length arr < bufLen then
              Some (e\<lparr>enc_buf := Some (replicate bufLen 0), enc_spare := []\<rparr>)
            else Some (e\<lparr>enc_buf := Some (take bufLen arr), enc_spare := drop bufLen arr\<rparr>)))"

text \<open>
  The middle of the loop body of \<open>ReadFrom\<close> (``write either a complete or partial
  blob''): from the chunk length, the number \<open>l\<close> of bytes read, the error of the read
  and the buffer, it gives the flag \<open>more\<close>, the offset \<open>h\<close> of the first header byte
  and the buffer with the header written into it. The differences \<open>l - 16384\<close> and
  \<open>l - 128\<close> are Go \<open>int\<close>s, \<open>>>\<close> on them is the arithmetic shift and \<open>byte\<close> keeps
  the low eight bits.
\<close>

definition chunk_header :: "nat \<Rightarrow> nat \<Rightarrow> error option \<Rightarrow> byte list \<Rightarrow> bool \<times> nat \<times> byte list" where
  "chunk_header chunkLen l err b =
     (if l = chunkLen \<and> err = None then
        (let n = int l - 16384 in
         (True, 0, b[0 := 0x81, 1 := 0x60 + of_int (drop_bit 16 n),
                     2 := of_int (drop_bit 8 n), 3 := of_int n]))
      else if l = 1 \<and> b ! 4 < 128 then (False, 4, b)
      else if l < 128 then (False, 3, b[3 := of_nat (0x80 + l)])
      else if l < 16384 + 128 then
        (let n = int l - 128 in
         (False, 1, b[1 := 0x81, 2 := of_int (drop_bit 8 n), 3 := of_int n]))
      else
        (let n = int l - 16384 in
         (False, 0, b[0 := 0x81, 1 := 0x40 + of_int (drop_bit 16 n),
                      2 := of_int (drop_bit 8 n), 3 := of_int n])))"

text \<open>
  The loop of \<open>ReadFrom\<close>, on the chunk length, the chunk buffer, the writer, the
  reader and the running total. With a chunk buffer of four bytes (chunk length 0)
  every read is full and the loop never ends, so the loop is a partial function:
  \<open>None\<close> stands for a run that does not return. A returning run gives the result of
  \<open>ReadFrom\<close> (the error, or the number of bytes encoded) and the buffer, the writer
  and the reader as it leaves them.
\<close>

partial_function (option) ReadFrom_loop ::
  "nat \<Rightarrow> byte list \<Rightarrow> Writer \<Rightarrow> Reader \<Rightarrow> nat
     \<Rightarrow> ((error + nat) \<times> byte list \<times> Writer \<times> Reader) option" where
  "ReadFrom_loop chunkLen b wr r tot =
     (case ReadFull r (drop 4 b) of
        (l, err, p, r') \<Rightarrow>
          (let b1 = take 4 b @ p in
           if err \<noteq> None \<and> err \<noteq> Some EOF \<and> err \<noteq> Some ErrUnexpectedEOF then
             Some (Inl (the err), b1, wr, r')
           else
             (case chunk_header chunkLen l err b1 of
                (more', h, b2) \<Rightarrow>
                  (case Write wr (slice b2 h (4 + l)) of
                     (lw, err', wr') \<Rightarrow>
                       if err' \<noteq> None then Some (Inl (the err'), b2, wr', r')
                       else if lw \<noteq> 4 - h + l then Some (Inl ShortWrite, b2, wr', r')
                       else if more' then ReadFrom_loop chunkLen b2 wr' r' (tot + l)
                       else Some (Inr (tot + l), b2, wr', r')))))"

text \<open>
  \<open>ReadFrom\<close>: the result, the encoder and the reader afterwards. The chunk buffer of
  an encoder is \<open>nil\<close> or was made by \<open>getBuf\<close> or \<open>SetChunkLen\<close>, so it is never
  shorter than four bytes.
\<close>

definition ReadFrom :: "Encoder \<Rightarrow> Reader \<Rightarrow> ((error + nat) \<times> Encoder \<times> Reader) option" where
  "ReadFrom e r =
     (case getBuf e of
        (b, e1) \<Rightarrow>
          (let chunkLen = length b - 4 in
           case ReadFrom_loop chunkLen b (enc_w e1) r 0 of
             None \<Rightarrow> None
           | Some (res, b', wr', r') \<Rightarrow> Some (res, e1\<lparr>enc_w := wr', enc_buf := Some b'\<rparr>, r')))"

text \<open>\<open>Bytes\<close>: encode a byte slice as a blob; the error (if any) and the encoder.\<close>

definition Encoder_Bytes :: "Encoder \<Rightarrow> byte list \<Rightarrow> (error option \<times> Encoder) option" where
  "Encoder_Bytes e b =
     (case ReadFrom e (NewReader b) of
        None \<Rightarrow> None
      | Some (Inl err, e', r') \<Rightarrow> Some (Some err, e')
      | Some (Inr n, e', r') \<Rightarrow> Some (None, e'))"

text \<open>\<open>binary.BigEndian.PutUint64\<close> into a fresh array of eight bytes.\<close>

definition PutUint64 :: "64 word \<Rightarrow> byte list" where
  "PutUint64 v =
     [ucast (drop_bit 56 v), ucast (drop_bit 48 v), ucast (drop_bit 40 v),
      ucast (drop_bit 32 v), ucast (drop_bit 24 v), ucast (drop_bit 16 v),
      ucast (drop_bit 8 v), ucast v]"

text \<open>The loop that trims the leading zero bytes.\<close>

fun trim_zeros :: "byte list \<Rightarrow> byte list" where
  "trim_zeros [] = []"
| "trim_zeros (x # xs) = (if x = 0 then trim_zeros xs else x # xs)"

definition Encoder_Uint64 :: "Encoder \<Rightarrow> 64 word \<Rightarrow> (error option \<times> Encoder) option" where
  "Encoder_Uint64 e v = Encoder_Bytes e (trim_zeros (PutUint64 v))"

text \<open>
  \<open>Int64\<close>: the zig-zag mapping of an \<open>int64\<close> (a 64-bit word read as two's
  complement) to a \<open>uint64\<close>, then \<open>Uint64\<close>.
\<close>

definition zigzag :: "64 word \<Rightarrow> 64 word" where
  "zigzag v = (if 0 \<le> sint v then push_bit 1 v else push_bit 1 (NOT v) + 1)"

definition Encoder_Int64 :: "Encoder \<Rightarrow> 64 word \<Rightarrow> (error option \<times> Encoder) option" where
  "Encoder_Int64 e v = Encoder_Uint64 e (zigzag v)"

text \<open>
  \<open>Encode(dst, src)\<close> of package \<open>cbs\<close>, the contiguous encoder beside this
  streaming encoder: small blobs only, \<open>None\<close> is its panic.
\<close>

definition Encode_cbs :: "byte list \<Rightarrow> byte list \<Rightarrow> byte list option" where
  "Encode_cbs dst src =
     (let n = length src in
      if n = 1 \<and> src ! 0 < 128 then Some (dst @ src)
      else if n < 128 then Some ((dst @ [of_nat (128 + n)]) @ src)
      else if n < 16384 then
        (let n = n - 128 in
         Some ((dst @ [0x81, of_nat (drop_bit 8 n), of_nat n]) @ src))
      else None)"

section \<open>The streaming decoder\<close>

text \<open>
  The \<open>Decoder\<close> holds a buffered reader \<open>d.r\<close> and nothing else; it is modelled
  by that reader. \<open>header\<close> decodes the header of the next blob or chunk: the
  payload length and the flag \<open>part\<close>, or an error, and the reader after it.
\<close>

definition header :: "Reader \<Rightarrow> (error + (nat \<times> bool)) \<times> Reader" where
  "header r =
     (case ReadByte r of
        (Inl err, r1) \<Rightarrow> (Inl err, r1)
      | (Inr h0, r1) \<Rightarrow>
          if h0 < 0x80 then (Inr (1, False), UnreadByte h0 r1)
          else if h0 \<noteq> 0x81 then (Inr (unat (h0 - 0x80), False), r1)
          else
            (case ReadByte r1 of
               (Inl err, r2) \<Rightarrow> (Inl err, r2)
             | (Inr h1, r2) \<Rightarrow>
                 if h1 \<ge> 0x80 then (Inr (1, False), UnreadByte h1 r2)
                 else
                   (case ReadByte r2 of
                      (Inl err, r3) \<Rightarrow> (Inl err, r3)
                    | (Inr h2, r3) \<Rightarrow>
                        if h1 < 0x40 then
                          (Inr (128 + push_bit 8 (unat h1) + unat h2, False), r3)
                        else
                          (case ReadByte r3 of
                             (Inl err, r4) \<Rightarrow> (Inl err, r4)
                           | (Inr h3, r4) \<Rightarrow>
                               if h1 < 0x60 then
                                 (Inr (16384 + push_bit 16 (unat (h1 AND 0x1f))
                                         + push_bit 8 (unat h2) + unat h3, False), r4)
                               else
                                 (Inr (16384 + push_bit 16 (unat (h1 AND 0x1f))
                                         + push_bit 8 (unat h2) + unat h3, True), r4)))))"

text \<open>
  \<open>io.CopyN(w, r, n)\<close>: copies \<open>n\<close> bytes from the reader to the writer. The result
  is the number of bytes written, the error, the writer and the reader. A source that
  ends before \<open>n\<close> bytes reports its error (\<open>io.EOF\<close> when it simply ends). The bytes
  are handed to the writer in one call of \<open>Write\<close>; nothing is written when there
  is nothing to copy.
\<close>

definition CopyN :: "Writer \<Rightarrow> Reader \<Rightarrow> nat \<Rightarrow> nat \<times> error option \<times> Writer \<times> Reader" where
  "CopyN wr r n =
     (let got = take n (rdata r);
          r' = r\<lparr>rdata := drop n (rdata r)\<rparr>
      in if got = [] then
           (if n = 0 then (0, None, wr, r') else (0, Some (rerr r), wr, r'))
         else
           (case Write wr got of
              (lw, err, wr') \<Rightarrow>
                if err \<noteq> None then (lw, err, wr', r')
                else if lw < length got then (lw, Some ErrShortWrite, wr', r')
                else if length got < n then (lw, Some (rerr r), wr', r')
                else (lw, None, wr', r')))"

lemma CopyN_length:
  "CopyN wr r n = (wn, err, wr', r') \<Longrightarrow> length (rdata r') \<le> length (rdata r)"
  by (auto simp: CopyN_def Let_def split: if_splits prod.splits)

lemma header_part_length:
  "header r = (Inr (n, True), r') \<Longrightarrow> length (rdata r) = length (rdata r') + 4"
  by (auto simp: header_def ReadByte_def UnreadByte_def
           split: list.splits if_splits)

text \<open>
  The loop of \<open>WriteTo\<close>, on the writer, the reader and the running total. Every
  partial chunk takes four header bytes from the input, which is finite.
\<close>

function WriteTo_loop :: "Writer \<Rightarrow> Reader \<Rightarrow> nat \<Rightarrow> (error + nat) \<times> Writer \<times> Reader" where
  "WriteTo_loop wr r tot =
     (case header r of
        (Inl err, r1) \<Rightarrow> (Inl err, wr, r1)
      | (Inr (n, part), r1) \<Rightarrow>
          (case CopyN wr r1 n of
             (wn, err, wr', r2) \<Rightarrow>
               if err \<noteq> None then (Inl (the err), wr', r2)
               else if wn \<noteq> n then (Inl ShortWrite, wr', r2)
               else if \<not> part then (Inr (tot + n), wr', r2)
               else WriteTo_loop wr' r2 (tot + n)))"
  by pat_completeness auto
termination
proof (relation "measure (\<lambda>(wr, r, tot). length (rdata r))", goal_cases)
  case 1
  show ?case by simp
next
  case 2
  then show ?case
    by (auto dest!: header_part_length [OF sym] CopyN_length [OF sym])
qed

declare WriteTo_loop.simps [simp del]

definition WriteTo :: "Reader \<Rightarrow> Writer \<Rightarrow> (error + nat) \<times> Writer \<times> Reader" where
  "WriteTo d wr = WriteTo_loop wr d 0"

text \<open>\<open>Bytes\<close>: decode a blob into a byte slice, through a fresh \<open>bytes.Buffer\<close>.\<close>

definition Decoder_Bytes :: "Reader \<Rightarrow> (error + byte list) \<times> Reader" where
  "Decoder_Bytes d =
     (case WriteTo d NewBuffer of
        (Inl err, wr', d') \<Rightarrow> (Inl err, d')
      | (Inr n, wr', d') \<Rightarrow> (Inr (written wr'), d'))"

text \<open>\<open>binary.BigEndian.Uint64\<close> of a slice of eight bytes.\<close>

definition BigEndian_Uint64 :: "byte list \<Rightarrow> 64 word" where
  "BigEndian_Uint64 b =
     ucast (b ! 7) OR push_bit 8 (ucast (b ! 6)) OR push_bit 16 (ucast (b ! 5))
       OR push_bit 24 (ucast (b ! 4)) OR push_bit 32 (ucast (b ! 3))
       OR push_bit 40 (ucast (b ! 2)) OR push_bit 48 (ucast (b ! 1))
       OR push_bit 56 (ucast (b ! 0))"

definition Decoder_Uint64 :: "Reader \<Rightarrow> (error + 64 word) \<times> Reader" where
  "Decoder_Uint64 d =
     (case Decoder_Bytes d of
        (Inl err, d') \<Rightarrow> (Inl err, d')
      | (Inr b, d') \<Rightarrow>
          if length b > 8 then (Inl TooLargeForUint64, d')
          else
            (let b8 = replicate (8 - length b) 0 @ b
             in (Inr (BigEndian_Uint64 b8), d')))"

text \<open>\<open>Int64\<close>: \<open>Uint64\<close>, then the zig-zag decoding to an \<open>int64\<close>.\<close>

definition unzigzag :: "64 word \<Rightarrow> 64 word" where
  "unzigzag v = (if v AND 1 = 0 then drop_bit 1 v else - 1 - drop_bit 1 v)"

definition Decoder_Int64 :: "Reader \<Rightarrow> (error + 64 word) \<times> Reader" where
  "Decoder_Int64 d =
     (case Decoder_Uint64 d of
        (Inl err, d') \<Rightarrow> (Inl err, d')
      | (Inr v, d') \<Rightarrow> (Inr (unzigzag v), d'))"

section \<open>The chunks of a streaming encode\<close>

text \<open>
  What one turn of the loop of \<open>ReadFrom\<close> hands to \<open>Write\<close> depends on the payload it
  has read and on whether the chunk is partial, not on what the buffer held before:
  it is the header that \<open>chunk_header\<close> writes, followed by the payload (lemma
  \<open>chunk_header_written\<close> below). \<open>partial_header\<close> and \<open>final_header\<close> are these
  header bytes, read off the branches of \<open>chunk_header\<close>.
\<close>

definition partial_header :: "nat \<Rightarrow> byte list" where
  "partial_header l =
     [0x81, 0x60 + of_int (drop_bit 16 (int l - 16384)),
      of_int (drop_bit 8 (int l - 16384)), of_int (int l - 16384)]"

definition final_header :: "byte list \<Rightarrow> byte list" where
  "final_header p =
     (if length p = 1 \<and> p ! 0 < 128 then []
      else if length p < 128 then [of_nat (0x80 + length p)]
      else if length p < 16384 + 128 then
        [0x81, of_int (drop_bit 8 (int (length p) - 128)), of_int (int (length p) - 128)]
      else
        [0x81, 0x40 + of_int (drop_bit 16 (int (length p) - 16384)),
         of_int (drop_bit 8 (int (length p) - 16384)), of_int (int (length p) - 16384)])"

definition chunk_bytes :: "bool \<Rightarrow> byte list \<Rightarrow> byte list" where
  "chunk_bytes part p = (if part then partial_header (length p) else final_header p) @ p"

text \<open>
  The chunks of a streaming encode of the bytes \<open>s\<close> with chunk length \<open>c\<close>: a partial
  chunk for every full read, then the final chunk.
\<close>

function chunks :: "nat \<Rightarrow> byte list \<Rightarrow> byte list list" where
  "chunks c s =
     (if 0 < c \<and> c \<le> length s then chunk_bytes True (take c s) # chunks c (drop c s)
      else [chunk_bytes False s])"
  by pat_completeness auto
termination
  by (relation "measure (\<lambda>(c, s). length s)") auto

declare chunks.simps [simp del]

text \<open>
  A chunk as the decoder reads it: the payload length and the flag \<open>part\<close> that
  \<open>header\<close> finds at its beginning, provided the rest of the chunk is a payload of
  this length.
\<close>

definition chunk_info :: "byte list \<Rightarrow> (nat \<times> bool) option" where
  "chunk_info ch =
     (case header (NewReader ch) of
        (Inl err, d) \<Rightarrow> None
      | (Inr (n, part), d) \<Rightarrow> if length (rdata d) = n then Some (n, part) else None)"

text \<open>The calls of \<open>Write\<close> that a run of \<open>ReadFrom\<close> has made when it returns.\<close>

definition writes_of :: "((error + nat) \<times> Encoder \<times> Reader) option \<Rightarrow> byte list list option" where
  "writes_of run = map_option (wlog \<circ> enc_w \<circ> fst \<circ> snd) run"

section \<open>Facts about bytes\<close>

lemma unat_byte_of_nat: "n < 256 \<Longrightarrow> unat (of_nat n :: byte) = n"
  by (simp add: unat_of_nat)

lemma byte_mask63: "(63::byte) = mask 6"
  by (simp add: mask_eq_exp_minus_1)

lemma byte_mask31: "(31::byte) = mask 5"
  by (simp add: mask_eq_exp_minus_1)

lemma byte_mask255: "(255::byte) = mask 8"
  by (simp add: mask_eq_exp_minus_1)

lemma unat_and63: "unat ((x::byte) AND 63) = unat x mod 64"
  unfolding byte_mask63
  by (simp flip: take_bit_eq_mask add: unsigned_take_bit_eq take_bit_eq_mod unat_mod)

lemma unat_and31: "unat ((x::byte) AND 31) = unat x mod 32"
  unfolding byte_mask31
  by (simp flip: take_bit_eq_mask add: unsigned_take_bit_eq take_bit_eq_mod unat_mod)

lemma byte_and255: "(x::byte) AND 255 = x"
  unfolding byte_mask255
  by (simp flip: take_bit_eq_mask add: take_bit_word_eq_self)

lemma byte_or_add:
  fixes a :: byte
  assumes "a AND 63 = 0" and "k < 64"
  shows "a OR of_nat k = a + of_nat k"
proof -
  have "(of_nat k :: byte) AND 63 = of_nat k"
    using assms(2) by (simp add: word_unat_eq_iff unat_and63 unat_of_nat)
  then have "a AND of_nat k = (a AND 63) AND of_nat k"
    by (metis and.commute and.assoc)
  then have "a AND of_nat k = 0"
    using assms(1) by simp
  then show ?thesis
    using word_plus_and_or [of a "of_nat k"] by simp
qed

lemma byte_of_nat_and255: "(of_nat (m AND 255) :: byte) = of_nat m"
proof -
  have "m AND mask 8 = m mod 256"
    by (simp flip: take_bit_eq_mask add: take_bit_eq_mod)
  moreover have "(mask 8 :: nat) = 255"
    by (simp add: mask_eq_exp_minus_1)
  ultimately have "m AND 255 = m mod 256"
    by simp
  then show ?thesis
    by (simp add: word_unat_eq_iff unat_of_nat)
qed

lemma split3: "65536 * (n div 65536) + 256 * ((n div 256) mod 256) + n mod 256 = (n::nat)"
proof -
  have "n mod (256 * 256) = 256 * (n div 256 mod 256) + n mod 256"
    by (rule mod_mult2_eq)
  then show ?thesis
    using div_mult_mod_eq [of n 65536] by simp
qed

lemma split2: "256 * (n div 256) + n mod 256 = (n::nat)"
  by simp

lemma byte_of_int_diff:
  "k \<le> l \<Longrightarrow> (of_int (drop_bit j (int l - int k)) :: byte) = of_nat (drop_bit j (l - k))"
proof -
  assume "k \<le> l"
  then have "int l - int k = int (l - k)" by simp
  then show ?thesis by (simp add: drop_bit_of_nat del: of_nat_diff)
qed
lemma byte_of_int_diff_16384:
  "16384 \<le> l \<Longrightarrow> (of_int (drop_bit j (int l - 16384)) :: byte) = of_nat (drop_bit j (l - 16384))"
  using byte_of_int_diff [of 16384 l j] by simp

lemma byte_of_int_diff_128:
  "128 \<le> l \<Longrightarrow> (of_int (drop_bit j (int l - 128)) :: byte) = of_nat (drop_bit j (l - 128))"
  using byte_of_int_diff [of 128 l j] by simp

lemma mod32_96: 
  assumes "k < 32" shows "(96 + k) mod 32 = (k::nat)"
proof -
  have "(96 + k) mod 32 = (k + 32 * 3) mod 32" by (simp add: add.commute)
  also have "\<dots> = k mod 32" by (rule mod_mult_self2)
  finally show ?thesis using assms by simp
qed

lemma mod32_64:
  assumes "k < 32" shows "(64 + k) mod 32 = (k::nat)"
proof -
  have "(64 + k) mod 32 = (k + 32 * 2) mod 32" by (simp add: add.commute)
  also have "\<dots> = k mod 32" by (rule mod_mult_self2)
  finally show ?thesis using assms by simp
qed

lemma unat_byte_add: "a + k < 256 \<Longrightarrow> unat ((of_nat a :: byte) + of_nat k) = a + k"
  by (simp add: unat_word_ariths unat_of_nat)

lemma unat_96_add: "k < 32 \<Longrightarrow> unat (0x60 + of_nat k :: byte) = 96 + k"
  using unat_byte_add [of 96 k] by simp

lemma unat_64_add: "k < 32 \<Longrightarrow> unat (0x40 + of_nat k :: byte) = 64 + k"
  using unat_byte_add [of 64 k] by simp

lemma unat_128_add: "k < 128 \<Longrightarrow> unat (128 + of_nat k :: byte) = 128 + k"
  using unat_byte_add [of 128 k] by simp

section \<open>One turn of the encoder's loop\<close>

lemma list_four:
  assumes "4 \<le> length b"
  obtains y0 y1 y2 y3 ys where "b = y0 # y1 # y2 # y3 # ys"
  using assms by (auto simp: Suc_le_length_iff eval_nat_numeral)

lemma slice_hdr0:
  assumes "length b \<ge> 4"
  shows "slice (b[0 := x0, Suc 0 := x1, 2 := x2, 3 := x3]) 0 (4 + l) = [x0, x1, x2, x3] @ take l (drop 4 b)"
proof -
  obtain y0 y1 y2 y3 ys where "b = y0 # y1 # y2 # y3 # ys"
    using assms by (rule list_four)
  then show ?thesis by (simp add: slice_def take_Cons')
qed

lemma slice_hdr1:
  assumes "length b \<ge> 4"
  shows "slice (b[Suc 0 := x1, 2 := x2, 3 := x3]) (Suc 0) (4 + l) = [x1, x2, x3] @ take l (drop 4 b)"
proof -
  obtain y0 y1 y2 y3 ys where "b = y0 # y1 # y2 # y3 # ys"
    using assms by (rule list_four)
  then show ?thesis by (simp add: slice_def take_Cons')
qed

lemma slice_hdr3:
  assumes "length b \<ge> 4"
  shows "slice (b[3 := x3]) 3 (4 + l) = [x3] @ take l (drop 4 b)"
proof -
  obtain y0 y1 y2 y3 ys where "b = y0 # y1 # y2 # y3 # ys"
    using assms by (rule list_four)
  then show ?thesis by (simp add: slice_def take_Cons')
qed

lemma slice_hdr4: "slice b 4 (4 + l) = take l (drop 4 b)"
  by (simp add: slice_def)

lemma chunk_header_written:
  assumes "4 + l \<le> length b1"
  shows "case chunk_header c l err b1 of
           (m, h, b2) \<Rightarrow>
             m = (l = c \<and> err = None) \<and> length b2 = length b1
             \<and> slice b2 h (4 + l) = chunk_bytes m (take l (drop 4 b1))
             \<and> 4 - h + l = length (chunk_bytes m (take l (drop 4 b1)))"
proof -
  let ?p = "take l (drop 4 b1)"
  have len: "length ?p = l" using assms by simp
  have b4: "4 \<le> length b1" using assms by simp
  have idx: "0 < l \<Longrightarrow> ?p ! 0 = b1 ! 4" using assms by simp
  consider (part) "l = c \<and> err = None"
    | (inline) "\<not> (l = c \<and> err = None)" "l = 1 \<and> b1 ! 4 < 128"
    | (short) "\<not> (l = c \<and> err = None)" "\<not> (l = 1 \<and> b1 ! 4 < 128)" "l < 128"
    | (medium) "\<not> (l = c \<and> err = None)" "\<not> l < 128" "l < 16384 + 128"
    | (large) "\<not> (l = c \<and> err = None)" "\<not> l < 128" "\<not> l < 16384 + 128"
    by linarith
  then show ?thesis
  proof cases
    case part
    then have "chunk_header c l err b1
        = (True, 0, b1[0 := 0x81, 1 := 0x60 + of_int (drop_bit 16 (int l - 16384)),
                        2 := of_int (drop_bit 8 (int l - 16384)), 3 := of_int (int l - 16384)])"
      unfolding chunk_header_def Let_def by (simp only: if_True simp_thms)
    then show ?thesis
      using part len by (simp add: slice_hdr0 [OF b4] chunk_bytes_def partial_header_def)
  next
    case inline
    then have "chunk_header c l err b1 = (False, 4, b1)"
      unfolding chunk_header_def Let_def by (simp only: if_True if_False simp_thms)
    moreover have "final_header ?p = []"
      using inline idx len by (simp add: final_header_def)
    ultimately show ?thesis
      using inline len by (simp add: slice_def chunk_bytes_def)
  next
    case short
    then have "chunk_header c l err b1 = (False, 3, b1[3 := of_nat (0x80 + l)])"
      unfolding chunk_header_def Let_def by (simp only: if_True if_False simp_thms)
    moreover have "final_header ?p = [of_nat (0x80 + l)]"
      using short idx len by (auto simp: final_header_def)
    ultimately show ?thesis
      using short len by (simp add: slice_hdr3 [OF b4] chunk_bytes_def)
  next
    case medium
    then have "\<not> (l = 1 \<and> b1 ! 4 < 128)" by simp
    with medium have "chunk_header c l err b1
        = (False, 1, b1[1 := 0x81, 2 := of_int (drop_bit 8 (int l - 128)),
                         3 := of_int (int l - 128)])"
      unfolding chunk_header_def Let_def by (simp only: if_True if_False simp_thms)
    moreover have "final_header ?p
        = [0x81, of_int (drop_bit 8 (int l - 128)), of_int (int l - 128)]"
      using medium len by (auto simp: final_header_def)
    ultimately show ?thesis
      using medium len by (simp add: slice_hdr1 [OF b4] chunk_bytes_def)
  next
    case large
    then have "\<not> (l = 1 \<and> b1 ! 4 < 128)" by simp
    with large have "chunk_header c l err b1
        = (False, 0, b1[0 := 0x81, 1 := 0x40 + of_int (drop_bit 16 (int l - 16384)),
                        2 := of_int (drop_bit 8 (int l - 16384)), 3 := of_int (int l - 16384)])"
      unfolding chunk_header_def Let_def by (simp only: if_True if_False simp_thms)
    moreover have "final_header ?p
        = [0x81, 0x40 + of_int (drop_bit 16 (int l - 16384)),
           of_int (drop_bit 8 (int l - 16384)), of_int (int l - 16384)]"
      using large len by (auto simp: final_header_def)
    ultimately show ?thesis
      using large len by (simp add: slice_hdr0 [OF b4] chunk_bytes_def)
  qed
qed

lemma ReadFull_EOF:
  assumes "rerr r = EOF" and "length p = c"
  shows "ReadFull r p =
           (min c (length (rdata r)),
            (if c \<le> length (rdata r) then None
             else Some (if rdata r = [] then EOF else ErrUnexpectedEOF)),
            take c (rdata r) @ drop (min c (length (rdata r))) p,
            r\<lparr>rdata := drop c (rdata r)\<rparr>)"
  using assms by (auto simp: ReadFull_def Let_def min_def)

lemma Write_unbounded:
  "wroom wr = None \<Longrightarrow> Write wr x = (length x, None, wr\<lparr>wlog := wlog wr @ [x]\<rparr>)"
  by (simp add: Write_def)

lemma ReadFrom_loop_step:
  assumes "length b = 4 + c" and "rerr r = EOF" and "wroom wr = None"
  shows "\<exists>b2. length b2 = 4 + c \<and>
           ReadFrom_loop c b wr r tot =
             (if c \<le> length (rdata r) then
                ReadFrom_loop c b2 (wr\<lparr>wlog := wlog wr @ [chunk_bytes True (take c (rdata r))]\<rparr>)
                  (r\<lparr>rdata := drop c (rdata r)\<rparr>) (tot + c)
              else Some (Inr (tot + length (rdata r)), b2,
                         wr\<lparr>wlog := wlog wr @ [chunk_bytes False (rdata r)]\<rparr>,
                         r\<lparr>rdata := []\<rparr>))"
proof -
  define l where "l = min c (length (rdata r))"
  define err where "err = (if c \<le> length (rdata r) then None
                           else Some (if rdata r = [] then EOF else ErrUnexpectedEOF))"
  define p where "p = take c (rdata r) @ drop l (drop 4 b)"
  define r' where "r' = r\<lparr>rdata := drop c (rdata r)\<rparr>"
  define b1 where "b1 = take 4 b @ p"
  have rf: "ReadFull r (drop 4 b) = (l, err, p, r')"
    using assms(1,2) by (simp add: ReadFull_EOF [where c = c] l_def err_def p_def r'_def)
  have errs: "\<not> (err \<noteq> None \<and> err \<noteq> Some EOF \<and> err \<noteq> Some ErrUnexpectedEOF)"
    by (simp add: err_def)
  have len1: "length b1 = 4 + c"
    using assms(1) by (simp add: b1_def p_def l_def)
  have l_le: "4 + l \<le> length b1"
    using len1 by (simp add: l_def)
  have payload: "take l (drop 4 b1) = take c (rdata r)"
    using assms(1) by (simp add: b1_def p_def l_def min_def)
  obtain m h b2 where ch: "chunk_header c l err b1 = (m, h, b2)"
    by (cases "chunk_header c l err b1")
  have facts: "m = (l = c \<and> err = None)" "length b2 = length b1"
      "slice b2 h (4 + l) = chunk_bytes m (take c (rdata r))"
      "4 - h + l = length (chunk_bytes m (take c (rdata r)))"
    using chunk_header_written [OF l_le, of c err] ch payload by simp_all
  have m_eq: "m = (c \<le> length (rdata r))"
    using facts(1) by (auto simp: l_def err_def min_def)
  have unfold: "ReadFrom_loop c b wr r tot =
      (if m then ReadFrom_loop c b2 (wr\<lparr>wlog := wlog wr @ [chunk_bytes m (take c (rdata r))]\<rparr>) r' (tot + l)
       else Some (Inr (tot + l), b2, wr\<lparr>wlog := wlog wr @ [chunk_bytes m (take c (rdata r))]\<rparr>, r'))"
    apply (subst ReadFrom_loop.simps)
    apply (simp only: rf prod.case Let_def b1_def [symmetric] errs if_False ch facts(3)
             Write_unbounded [OF assms(3)])
    apply (simp add: facts(4))
    done
  show ?thesis
  proof (cases "c \<le> length (rdata r)")
    case True
    then show ?thesis
      using unfold m_eq facts(2) len1 by (intro exI [of _ b2]) (simp add: l_def r'_def)
  next
    case False
    then show ?thesis
      using unfold m_eq facts(2) len1 by (intro exI [of _ b2]) (simp add: l_def r'_def)
  qed
qed

lemma ReadFrom_loop_chunks:
  assumes "0 < c" and "length b = 4 + c" and "rerr r = EOF" and "wroom wr = None"
  shows "\<exists>b'. length b' = 4 + c \<and>
           ReadFrom_loop c b wr r tot =
             Some (Inr (tot + length (rdata r)), b',
                   wr\<lparr>wlog := wlog wr @ chunks c (rdata r)\<rparr>, r\<lparr>rdata := []\<rparr>)"
  using assms(2-4)
proof (induction "length (rdata r)" arbitrary: b wr r tot rule: less_induct)
  case less
  obtain b2 where b2: "length b2 = 4 + c"
    and step: "ReadFrom_loop c b wr r tot =
             (if c \<le> length (rdata r) then
                ReadFrom_loop c b2 (wr\<lparr>wlog := wlog wr @ [chunk_bytes True (take c (rdata r))]\<rparr>)
                  (r\<lparr>rdata := drop c (rdata r)\<rparr>) (tot + c)
              else Some (Inr (tot + length (rdata r)), b2,
                         wr\<lparr>wlog := wlog wr @ [chunk_bytes False (rdata r)]\<rparr>,
                         r\<lparr>rdata := []\<rparr>))"
    using ReadFrom_loop_step [OF less.prems, of tot] by blast
  show ?case
  proof (cases "c \<le> length (rdata r)")
    case True
    let ?wr = "wr\<lparr>wlog := wlog wr @ [chunk_bytes True (take c (rdata r))]\<rparr>"
    let ?r = "r\<lparr>rdata := drop c (rdata r)\<rparr>"
    have "length (rdata ?r) < length (rdata r)"
      using True assms(1) by simp
    moreover have "rerr ?r = EOF" "wroom ?wr = None"
      using less.prems by simp_all
    ultimately obtain b' where "length b' = 4 + c"
      and "ReadFrom_loop c b2 ?wr ?r (tot + c) =
             Some (Inr (tot + c + length (rdata ?r)), b',
                   ?wr\<lparr>wlog := wlog ?wr @ chunks c (rdata ?r)\<rparr>, ?r\<lparr>rdata := []\<rparr>)"
      using less.hyps [of ?r b2 ?wr "tot + c"] b2 by blast
    then show ?thesis
      using True assms(1) step
      by (intro exI [of _ b']) (simp add: chunks.simps [of c "rdata r"])
  next
    case False
    then show ?thesis
      using step b2 by (intro exI [of _ b2]) (simp add: chunks.simps [of c "rdata r"])
  qed
qed

section \<open>The headers of the chunks, and the decoder on them\<close>

lemma partial_header_nat:
  assumes "16384 \<le> l"
  shows "partial_header l =
           [0x81, 0x60 + of_nat ((l - 16384) div 65536), of_nat ((l - 16384) div 256),
            of_nat (l - 16384)]"
  using byte_of_int_diff_16384 [OF assms, of 16] byte_of_int_diff_16384 [OF assms, of 8]
    byte_of_int_diff_16384 [OF assms, of 0]
  by (simp add: partial_header_def drop_bit_eq_div)

lemma final_header_medium:
  assumes "128 \<le> length p" and "length p < 16512"
  shows "final_header p = [0x81, of_nat ((length p - 128) div 256), of_nat (length p - 128)]"
  using byte_of_int_diff_128 [OF assms(1), of 8] byte_of_int_diff_128 [OF assms(1), of 0] assms
  by (simp add: final_header_def drop_bit_eq_div)

lemma final_header_large:
  assumes "16512 \<le> length p"
  shows "final_header p =
           [0x81, 0x40 + of_nat ((length p - 16384) div 65536),
            of_nat ((length p - 16384) div 256), of_nat (length p - 16384)]"
proof -
  have "16384 \<le> length p" using assms by simp
  from byte_of_int_diff_16384 [OF this, of 16] byte_of_int_diff_16384 [OF this, of 8]
    byte_of_int_diff_16384 [OF this, of 0] assms
  show ?thesis by (simp add: final_header_def drop_bit_eq_div)
qed

lemma header_inline:
  "h0 < 0x80 \<Longrightarrow>
     header \<lparr>rdata = h0 # bs, rerr = x\<rparr> = (Inr (1, False), \<lparr>rdata = h0 # bs, rerr = x\<rparr>)"
  by (simp add: header_def ReadByte_def UnreadByte_def)

lemma header_one_byte:
  "\<not> h0 < 0x80 \<Longrightarrow> h0 \<noteq> 0x81 \<Longrightarrow>
     header \<lparr>rdata = h0 # bs, rerr = x\<rparr>
       = (Inr (unat (h0 - 0x80), False), \<lparr>rdata = bs, rerr = x\<rparr>)"
  by (simp add: header_def ReadByte_def UnreadByte_def)

lemma header_inline_high:
  "0x80 \<le> h1 \<Longrightarrow>
     header \<lparr>rdata = 0x81 # h1 # bs, rerr = x\<rparr>
       = (Inr (1, False), \<lparr>rdata = h1 # bs, rerr = x\<rparr>)"
  by (simp add: header_def ReadByte_def UnreadByte_def)

lemma header_three_bytes:
  "h1 < 0x40 \<Longrightarrow>
     header \<lparr>rdata = 0x81 # h1 # h2 # bs, rerr = x\<rparr>
       = (Inr (128 + push_bit 8 (unat h1) + unat h2, False), \<lparr>rdata = bs, rerr = x\<rparr>)"
  by (simp add: header_def ReadByte_def UnreadByte_def word_less_nat_alt word_le_nat_alt)

lemma header_four_bytes:
  "0x40 \<le> h1 \<Longrightarrow> h1 < 0x80 \<Longrightarrow>
     header \<lparr>rdata = 0x81 # h1 # h2 # h3 # bs, rerr = x\<rparr>
       = (Inr (16384 + push_bit 16 (unat (h1 AND 0x1f)) + push_bit 8 (unat h2) + unat h3,
               0x60 \<le> h1), \<lparr>rdata = bs, rerr = x\<rparr>)"
  by (auto simp: header_def ReadByte_def UnreadByte_def word_less_nat_alt word_le_nat_alt)

lemma header_partial:
  assumes "16384 \<le> length p" and "length p \<le> 2113535"
  shows "header \<lparr>rdata = chunk_bytes True p @ rest, rerr = x\<rparr>
           = (Inr (length p, True), \<lparr>rdata = p @ rest, rerr = x\<rparr>)"
proof -
  define n where "n = length p - 16384"
  define h1 :: byte where "h1 = 0x60 + of_nat (n div 65536)"
  have n: "n div 65536 < 32" "length p = 16384 + n"
    using assms by (simp_all add: n_def)
  have u1: "unat h1 = 96 + n div 65536"
    unfolding h1_def using n(1) by (rule unat_96_add)
  have hdr: "chunk_bytes True p = 0x81 # h1 # of_nat (n div 256) # of_nat n # p"
    by (simp add: chunk_bytes_def partial_header_nat [OF assms(1)] n_def h1_def)
  have rng: "0x40 \<le> h1" "h1 < 0x80" "0x60 \<le> h1"
    using u1 n(1) by (simp_all add: word_less_nat_alt word_le_nat_alt)
  have "unat (h1 AND 0x1f) = n div 65536"
    using mod32_96 [OF n(1)] by (simp add: unat_and31 u1)
  then show ?thesis
    unfolding hdr using split3 [of n] rng n(2)
    by (simp add: header_four_bytes unat_of_nat push_bit_eq_mult)
qed

lemma header_final:
  assumes "length p \<le> 2113535"
  shows "header \<lparr>rdata = chunk_bytes False p @ rest, rerr = x\<rparr>
           = (Inr (length p, False), \<lparr>rdata = p @ rest, rerr = x\<rparr>)"
proof -
  consider (inline) "length p = 1" "p ! 0 < 128"
    | (one) "length p = 1" "\<not> p ! 0 < 128"
    | (short) "length p \<noteq> 1" "length p < 128"
    | (medium) "128 \<le> length p" "length p < 16512"
    | (large) "16512 \<le> length p"
    by linarith
  then show ?thesis
  proof cases
    case inline
    then obtain v where "p = [v]" by (cases p) auto
    with inline show ?thesis
      by (simp add: chunk_bytes_def final_header_def header_inline)
  next
    case one
    then obtain v where "p = [v]" by (cases p) auto
    with one show ?thesis
      by (simp add: chunk_bytes_def final_header_def header_inline_high word_le_nat_alt
            word_less_nat_alt)
  next
    case short
    define h0 :: byte where "h0 = 128 + of_nat (length p)"
    have u0: "unat h0 = 128 + length p"
      unfolding h0_def using short by (intro unat_128_add) simp
    have hdr: "chunk_bytes False p = h0 # p"
      using short by (simp add: chunk_bytes_def final_header_def h0_def)
    have "\<not> h0 < 0x80" "h0 \<noteq> 0x81" "unat (h0 - 0x80) = length p"
      using u0 short by (simp_all add: word_less_nat_alt word_unat_eq_iff h0_def unat_of_nat)
    then show ?thesis
      unfolding hdr by (simp add: header_one_byte)
  next
    case medium
    define n where "n = length p - 128"
    have n: "n div 256 < 64" "length p = 128 + n"
      using medium by (simp_all add: n_def)
    have hdr: "chunk_bytes False p = 0x81 # of_nat (n div 256) # of_nat n # p"
      by (simp add: chunk_bytes_def final_header_medium [OF medium] n_def)
    have "(of_nat (n div 256) :: byte) < 0x40"
      using n(1) by (simp add: word_less_nat_alt unat_of_nat)
    then show ?thesis
      unfolding hdr using n split2 [of n]
      by (simp add: header_three_bytes unat_of_nat push_bit_eq_mult)
  next
    case large
    define n where "n = length p - 16384"
    define h1 :: byte where "h1 = 0x40 + of_nat (n div 65536)"
    have n: "n div 65536 < 32" "length p = 16384 + n"
      using large assms by (simp_all add: n_def)
    have u1: "unat h1 = 64 + n div 65536"
      unfolding h1_def using n(1) by (rule unat_64_add)
    have hdr: "chunk_bytes False p = 0x81 # h1 # of_nat (n div 256) # of_nat n # p"
      by (simp add: chunk_bytes_def final_header_large [OF large] n_def h1_def)
    have rng: "0x40 \<le> h1" "h1 < 0x80" "\<not> 0x60 \<le> h1"
      using u1 n(1) by (simp_all add: word_less_nat_alt word_le_nat_alt)
    have "unat (h1 AND 0x1f) = n div 65536"
      using mod32_64 [OF n(1)] by (simp add: unat_and31 u1)
    then show ?thesis
      unfolding hdr using split3 [of n] rng n(2)
      by (simp add: header_four_bytes unat_of_nat push_bit_eq_mult)
  qed
qed

lemma written_append: "written (wr\<lparr>wlog := wlog wr @ [x]\<rparr>) = written wr @ x"
  by (simp add: written_def)

lemma CopyN_unbounded:
  assumes "wroom wr = None" and "n \<le> length bs"
  shows "\<exists>wr'. CopyN wr \<lparr>rdata = bs, rerr = x\<rparr> n
                 = (n, None, wr', \<lparr>rdata = drop n bs, rerr = x\<rparr>)
               \<and> written wr' = written wr @ take n bs \<and> wroom wr' = None"
proof (cases "take n bs = []")
  case True
  then have "n = 0" using assms(2) by auto
  then show ?thesis
    using assms(1) by (simp add: CopyN_def)
next
  case False
  then show ?thesis
    using assms
    by (simp add: CopyN_def Let_def Write_unbounded written_append)
qed

lemma WriteTo_loop_chunk:
  assumes "wroom wr = None" and "length p \<le> 2113535" and "part \<longrightarrow> 16384 \<le> length p"
  shows "\<exists>wr'. written wr' = written wr @ p \<and> wroom wr' = None \<and>
           WriteTo_loop wr \<lparr>rdata = chunk_bytes part p @ rest, rerr = x\<rparr> tot =
             (if part then WriteTo_loop wr' \<lparr>rdata = rest, rerr = x\<rparr> (tot + length p)
              else (Inr (tot + length p), wr', \<lparr>rdata = rest, rerr = x\<rparr>))"
proof -
  have hd: "header \<lparr>rdata = chunk_bytes part p @ rest, rerr = x\<rparr>
              = (Inr (length p, part), \<lparr>rdata = p @ rest, rerr = x\<rparr>)"
    using assms(2,3) header_partial [of p rest x] header_final [of p rest x]
    by (cases part) simp_all
  obtain wr' where cp: "CopyN wr \<lparr>rdata = p @ rest, rerr = x\<rparr> (length p)
                 = (length p, None, wr', \<lparr>rdata = rest, rerr = x\<rparr>)"
    and wr': "written wr' = written wr @ p" "wroom wr' = None"
    using CopyN_unbounded [OF assms(1), of "length p" "p @ rest" x] by auto
  show ?thesis
    using wr'
    by (intro exI [of _ wr']) (simp add: WriteTo_loop.simps [of wr] hd cp)
qed

lemma WriteTo_loop_chunks:
  assumes "16384 \<le> c" and "c \<le> 2113535" and "wroom wr = None"
  shows "\<exists>wr'. WriteTo_loop wr \<lparr>rdata = concat (chunks c s) @ rest, rerr = x\<rparr> tot
                 = (Inr (tot + length s), wr', \<lparr>rdata = rest, rerr = x\<rparr>)
               \<and> written wr' = written wr @ s \<and> wroom wr' = None"
  using assms(3)
proof (induction "length s" arbitrary: s wr tot rule: less_induct)
  case less
  show ?case
  proof (cases "c \<le> length s")
    case True
    let ?p = "take c s"
    have ch: "concat (chunks c s) @ rest
                = chunk_bytes True ?p @ (concat (chunks c (drop c s)) @ rest)"
      using True assms(1) by (simp add: chunks.simps [of c s])
    have lp: "length ?p = c" using True by simp
    obtain wr1 where wr1: "written wr1 = written wr @ ?p" "wroom wr1 = None"
      and step: "WriteTo_loop wr \<lparr>rdata = concat (chunks c s) @ rest, rerr = x\<rparr> tot
                   = WriteTo_loop wr1 \<lparr>rdata = concat (chunks c (drop c s)) @ rest, rerr = x\<rparr>
                       (tot + c)"
      using WriteTo_loop_chunk [OF less.prems, of ?p True "concat (chunks c (drop c s)) @ rest" x tot]
        assms(1,2) lp True unfolding ch by auto
    have "length (drop c s) < length s"
      using True assms(1) by simp
    from less.hyps [OF this wr1(2), of "tot + c"]
    obtain wr' where "WriteTo_loop wr1 \<lparr>rdata = concat (chunks c (drop c s)) @ rest, rerr = x\<rparr>
                         (tot + c)
                 = (Inr (tot + c + length (drop c s)), wr', \<lparr>rdata = rest, rerr = x\<rparr>)"
      and "written wr' = written wr1 @ drop c s" "wroom wr' = None"
      by blast
    then show ?thesis
      using step wr1 True by (intro exI [of _ wr']) simp
  next
    case False
    then have ch: "concat (chunks c s) @ rest = chunk_bytes False s @ rest"
      by (simp add: chunks.simps [of c s])
    show ?thesis
      using WriteTo_loop_chunk [OF less.prems, of s False rest x tot] False assms(2)
      unfolding ch by auto
  qed
qed

section \<open>A streaming encode as a whole\<close>

lemma SetChunkLen_NewEncoder:
  assumes "16384 \<le> c" and "c \<le> 2113535"
  shows "SetChunkLen c (NewEncoder wr)
           = Some \<lparr>enc_w = wr, enc_buf = Some (replicate (4 + c) 0), enc_spare = []\<rparr>"
  using assms
  by (simp add: SetChunkLen_def NewEncoder_def MinChunkLen_def MaxChunkLen_def bytes_of_def)

lemma ReadFrom_chunks:
  assumes "enc_buf e = Some b" and "length b = 4 + c" and "0 < c" and "wroom (enc_w e) = None"
  shows "\<exists>b'. ReadFrom e (NewReader s) =
           Some (Inr (length s),
                 e\<lparr>enc_w := (enc_w e)\<lparr>wlog := wlog (enc_w e) @ chunks c s\<rparr>, enc_buf := Some b'\<rparr>,
                 \<lparr>rdata = [], rerr = EOF\<rparr>)"
proof -
  have "rerr (NewReader s) = EOF" by (simp add: NewReader_def)
  from ReadFrom_loop_chunks [OF assms(3,2) this assms(4), of 0]
  obtain b' where "ReadFrom_loop c b (enc_w e) (NewReader s) 0 =
             Some (Inr (length s), b',
                   (enc_w e)\<lparr>wlog := wlog (enc_w e) @ chunks c s\<rparr>, \<lparr>rdata = [], rerr = EOF\<rparr>)"
    by (auto simp: NewReader_def)
  then show ?thesis
    using assms(1,2) by (intro exI [of _ b']) (simp add: ReadFrom_def getBuf_def)
qed

lemma ReadFrom_configured:
  assumes "16384 \<le> c" and "c \<le> 2113535"
  shows "\<exists>e e'. SetChunkLen c (NewEncoder NewBuffer) = Some e
           \<and> ReadFrom e (NewReader s) = Some (Inr (length s), e', \<lparr>rdata = [], rerr = EOF\<rparr>)
           \<and> wlog (enc_w e') = chunks c s"
proof -
  let ?e = "\<lparr>enc_w = NewBuffer, enc_buf = Some (replicate (4 + c) 0), enc_spare = []\<rparr>"
  have "0 < c" using assms(1) by simp
  from ReadFrom_chunks [of ?e "replicate (4 + c) 0" c s, OF _ _ this]
  obtain b' where "ReadFrom ?e (NewReader s) =
           Some (Inr (length s),
                 ?e\<lparr>enc_w := (enc_w ?e)\<lparr>wlog := wlog (enc_w ?e) @ chunks c s\<rparr>, enc_buf := Some b'\<rparr>,
                 \<lparr>rdata = [], rerr = EOF\<rparr>)"
    by (auto simp: NewBuffer_def)
  then show ?thesis
    using SetChunkLen_NewEncoder [OF assms, of NewBuffer]
    by (auto simp: NewBuffer_def)
qed

lemma writes_of_configured:
  assumes "16384 \<le> c" and "c \<le> 2113535"
  shows "writes_of (ReadFrom \<lparr>enc_w = NewBuffer, enc_buf = Some (replicate (4 + c) 0), enc_spare = []\<rparr>
                      (NewReader s)) = Some (chunks c s)"
proof -
  let ?e = "\<lparr>enc_w = NewBuffer, enc_buf = Some (replicate (4 + c) 0), enc_spare = []\<rparr>"
  have "0 < c" using assms(1) by simp
  from ReadFrom_chunks [of ?e "replicate (4 + c) 0" c s, OF _ _ this]
  obtain b' where "ReadFrom ?e (NewReader s) =
           Some (Inr (length s),
                 ?e\<lparr>enc_w := (enc_w ?e)\<lparr>wlog := wlog (enc_w ?e) @ chunks c s\<rparr>, enc_buf := Some b'\<rparr>,
                 \<lparr>rdata = [], rerr = EOF\<rparr>)"
    by (auto simp: NewBuffer_def)
  then show ?thesis
    by (simp add: writes_of_def NewBuffer_def)
qed

lemma chunk_info_chunk_bytes:
  assumes "length p \<le> 2113535" and "part \<longrightarrow> 16384 \<le> length p"
  shows "chunk_info (chunk_bytes part p) = Some (length p, part)"
  using assms header_partial [of p "[]" EOF] header_final [of p "[]" EOF]
  by (cases part) (simp_all add: chunk_info_def NewReader_def)

lemma chunks_shape:
  assumes "0 < c"
  shows "\<exists>ps q. chunks c s = ps @ [chunk_bytes False q] \<and> length q < c
           \<and> (\<forall>p \<in> set ps. \<exists>q'. p = chunk_bytes True q' \<and> length q' = c)"
proof (induction "length s" arbitrary: s rule: less_induct)
  case less
  show ?case
  proof (cases "c \<le> length s")
    case True
    then have "length (drop c s) < length s" using assms by simp
    from less.hyps [OF this]
    obtain ps q where "chunks c (drop c s) = ps @ [chunk_bytes False q]" "length q < c"
      "\<forall>p \<in> set ps. \<exists>q'. p = chunk_bytes True q' \<and> length q' = c"
      by blast
    then show ?thesis
      using True assms
      by (intro exI [of _ "chunk_bytes True (take c s) # ps"] exI [of _ q])
         (auto simp: chunks.simps [of c s])
  next
    case False
    then show ?thesis
      by (intro exI [of _ "[]"] exI [of _ s]) (simp add: chunks.simps [of c s])
  qed
qed


lemma chunks_40000:
  assumes "length s = 40000"
  shows "chunks 16384 s
           = [[0x81, 0x60, 0x00, 0x00] @ take 16384 s,
              [0x81, 0x60, 0x00, 0x00] @ take 16384 (drop 16384 s),
              [0x81, 0x1B, 0xC0] @ drop 32768 s]"
proof -
  have "final_header (drop 32768 s) = [0x81, 0x1B, 0xC0]"
    using assms final_header_medium [of "drop 32768 s"] by simp
  then show ?thesis
    using assms
    by (simp add: chunks.simps [of 16384 s] chunks.simps [of 16384 "drop 16384 s"]
          chunks.simps [of 16384 "drop 32768 s"] chunk_bytes_def partial_header_def)
qed

section \<open>Integers as blobs\<close>

lemma trim_zeros_length: "length (trim_zeros xs) \<le> length xs"
  by (induction xs) auto

lemma trim_zeros_pad:
  "replicate (length xs - length (trim_zeros xs)) 0 @ trim_zeros xs = xs"
proof (induction xs)
  case Nil
  show ?case by simp
next
  case (Cons x xs)
  show ?case
  proof (cases "x = 0")
    case True
    then have "replicate (length (x # xs) - length (trim_zeros (x # xs))) 0 @ trim_zeros (x # xs)
                 = 0 # (replicate (length xs - length (trim_zeros xs)) 0 @ trim_zeros xs)"
      using trim_zeros_length [of xs] by (simp add: Suc_diff_le)
    with Cons True show ?thesis by simp
  next
    case False
    then show ?thesis by simp
  qed
qed

lemma byte_of_word_bit:
  "bit (push_bit j (ucast (ucast (drop_bit j v :: 64 word) :: byte)) :: 64 word) n
     \<longleftrightarrow> j \<le> n \<and> n < j + 8 \<and> n < 64 \<and> bit v n"
  by (auto simp: bit_simps)

lemma byte_of_word_bit0:
  "bit (ucast (ucast (v :: 64 word) :: byte) :: 64 word) n \<longleftrightarrow> n < 8 \<and> bit v n"
  by (auto simp: bit_simps)

lemma BigEndian_PutUint64: "BigEndian_Uint64 (PutUint64 v) = v"
proof (rule bit_word_eqI)
  fix n assume "n < LENGTH(64)"
  then have n: "n < 64" by simp
  have cover: "n < 8 \<or> (8 \<le> n \<and> n < 16) \<or> (16 \<le> n \<and> n < 24) \<or> (24 \<le> n \<and> n < 32)
               \<or> (32 \<le> n \<and> n < 40) \<or> (40 \<le> n \<and> n < 48) \<or> (48 \<le> n \<and> n < 56)
               \<or> 56 \<le> n"
    by linarith
  show "bit (BigEndian_Uint64 (PutUint64 v)) n \<longleftrightarrow> bit v n"
  proof (cases "bit v n")
    case True
    with n cover show ?thesis
      unfolding BigEndian_Uint64_def PutUint64_def
      by (simp add: bit_or_iff byte_of_word_bit byte_of_word_bit0)
  next
    case False
    then show ?thesis
      unfolding BigEndian_Uint64_def PutUint64_def
      by (simp add: bit_or_iff byte_of_word_bit byte_of_word_bit0)
  qed
qed

lemma zigzag_uint:
  "uint (zigzag v) = (if 0 \<le> sint v then 2 * sint v else 2 * (- sint v - 1) + 1)"
proof -
  have rng: "- (2 ^ 63) \<le> sint v" "sint v < 2 ^ 63"
    using sint_ge [of v] sint_lt [of v] by simp_all
  show ?thesis
  proof (cases "0 \<le> sint v")
    case True
    have "zigzag v = 2 * v"
      using True by (simp add: zigzag_def push_bit_eq_mult)
    also have "\<dots> = word_of_int (2 * sint v)"
      by simp
    finally have "uint (zigzag v) = (2 * sint v) mod 2 ^ LENGTH(64)"
      by (simp only: uint_word_of_int)
    then show ?thesis
      using True rng by simp
  next
    case False
    have "zigzag v = 2 * (- v - 1) + 1"
      using False by (simp add: zigzag_def push_bit_eq_mult not_eq_complement)
    also have "\<dots> = word_of_int (2 * (- sint v - 1) + 1)"
      by simp
    finally have "uint (zigzag v) = (2 * (- sint v - 1) + 1) mod 2 ^ LENGTH(64)"
      by (simp only: uint_word_of_int)
    then show ?thesis
      using False rng by simp
  qed
qed


lemma unzigzag_sint:
  "sint (unzigzag u)
     = (if even (uint u) then uint u div 2 else - ((uint u - 1) div 2) - 1)"
proof -
  have rng: "0 \<le> uint u" "uint u < 2 ^ 64"
    using uint_lt2p [of u] by simp_all
  have small: "0 \<le> uint u div 2" "uint u div 2 < 2 ^ 64"
    using rng by simp_all
  have "uint u < 18446744073709551616"
    using rng by simp
  then have "uint u div 2 < 9223372036854775808"
    by arith
  moreover define h where "h = uint u div 2"
  ultimately have "0 \<le> h" "h < 9223372036854775808"
    using small(1) by simp_all
  then have "- (2 ^ 63) \<le> h" "h < 2 ^ 63" "- (2 ^ 63) \<le> - 1 - h" "- 1 - h < 2 ^ 63"
    by simp_all
  then have half_rng: "- (2 ^ 63) \<le> uint u div 2" "uint u div 2 < 2 ^ 63"
    "- (2 ^ 63) \<le> - 1 - uint u div 2" "- 1 - uint u div 2 < 2 ^ 63"
    unfolding h_def by blast+
  have half: "drop_bit 1 u = word_of_int (uint u div 2)"
    using small by (simp add: word_uint_eq_iff uint_word_of_int drop_bit_eq_div uint_div)
  have "odd (uint u) \<longleftrightarrow> odd u"
    by (simp flip: bit_0 add: bit_uint_iff)
  moreover have "u AND 1 = 0 \<longleftrightarrow> even u"
    by (simp add: and_one_eq flip: even_iff_mod_2_eq_zero)
  ultimately have ev: "u AND 1 = 0 \<longleftrightarrow> even (uint u)"
    by blast
  show ?thesis
  proof (cases "even (uint u)")
    case True
    have "unzigzag u = word_of_int (uint u div 2)"
      using True ev half by (simp add: unzigzag_def)
    then have "sint (unzigzag u) = signed_take_bit 63 (uint u div 2)"
      by (simp add: signed_of_int)
    moreover have "signed_take_bit 63 (uint u div 2) = uint u div 2"
      using half_rng(1,2) by (rule signed_take_bit_int_eq_self)
    ultimately show ?thesis
      using True by simp
  next
    case False
    have "unzigzag u = word_of_int (- 1 - uint u div 2)"
      using False ev half by (simp add: unzigzag_def)
    moreover have "sint (word_of_int (- 1 - uint u div 2) :: 64 word)
                     = signed_take_bit (LENGTH(64) - Suc 0) (- 1 - uint u div 2)"
      by (simp only: signed_of_int of_int_eq_id id_apply)
    moreover have "LENGTH(64) - Suc 0 = 63"
      by simp
    ultimately have "sint (unzigzag u) = signed_take_bit 63 (- 1 - uint u div 2)"
      by (simp only:)
    moreover have "signed_take_bit 63 (- 1 - uint u div 2) = - 1 - uint u div 2"
      using half_rng(3,4) by (rule signed_take_bit_int_eq_self)
    moreover have "(uint u - 1) div 2 = uint u div 2"
      using False by presburger
    ultimately show ?thesis
      using False by simp
  qed
qed

lemma unzigzag_zigzag: "unzigzag (zigzag v) = v"
proof (rule signed_word_eqI)
  show "sint (unzigzag (zigzag v)) = sint v"
    by (simp add: unzigzag_sint zigzag_uint)
qed

lemma ReadFrom_default:
  assumes "wroom wr = None"
  shows "\<exists>b'. ReadFrom (NewEncoder wr) (NewReader s) =
           Some (Inr (length s),
                 \<lparr>enc_w = wr\<lparr>wlog := wlog wr @ chunks 16384 s\<rparr>, enc_buf = Some b', enc_spare = []\<rparr>,
                 \<lparr>rdata = [], rerr = EOF\<rparr>)"
proof -
  have "rerr (NewReader s) = EOF" by (simp add: NewReader_def)
  from ReadFrom_loop_chunks [of 16384 "replicate (4 + 16384) 0" "NewReader s" wr 0, OF _ _ this assms]
  obtain b' where "ReadFrom_loop 16384 (replicate (4 + 16384) 0) wr (NewReader s) 0 =
             Some (Inr (length s), b',
                   wr\<lparr>wlog := wlog wr @ chunks 16384 s\<rparr>, \<lparr>rdata = [], rerr = EOF\<rparr>)"
    by (auto simp: NewReader_def)
  then show ?thesis
    by (intro exI [of _ b'])
       (simp add: ReadFrom_def getBuf_def NewEncoder_def defaultChunkLen_def MinChunkLen_def
          Let_def)
qed

lemma Encoder_Bytes_default:
  "\<exists>e'. Encoder_Bytes (NewEncoder NewBuffer) b = Some (None, e')
         \<and> written (enc_w e') = concat (chunks 16384 b)"
proof -
  have "wroom NewBuffer = None" by (simp add: NewBuffer_def)
  from ReadFrom_default [OF this, of b]
  show ?thesis
    by (auto simp: Encoder_Bytes_def written_def NewBuffer_def)
qed

lemma Decoder_Bytes_chunks:
  assumes "16384 \<le> c" and "c \<le> 2113535"
  shows "Decoder_Bytes (NewReader (concat (chunks c b))) = (Inr b, \<lparr>rdata = [], rerr = EOF\<rparr>)"
proof -
  have "wroom NewBuffer = None" by (simp add: NewBuffer_def)
  from WriteTo_loop_chunks [OF assms this, of b "[]" EOF 0]
  obtain sink where "WriteTo_loop NewBuffer \<lparr>rdata = concat (chunks c b), rerr = EOF\<rparr> 0
                 = (Inr (length b), sink, \<lparr>rdata = [], rerr = EOF\<rparr>)"
    and "written sink = written NewBuffer @ b"
    by auto
  then show ?thesis
    by (simp add: Decoder_Bytes_def WriteTo_def NewReader_def written_def NewBuffer_def)
qed

section \<open>The contiguous decoder on the contiguous encoder's output\<close>

lemma unat_192_add: "k < 64 \<Longrightarrow> unat (0xc0 + of_nat k :: byte) = 192 + k"
  using unat_byte_add [of 192 k] by simp

lemma mod64_192:
  assumes "k < 64" shows "(192 + k) mod 64 = (k::nat)"
proof -
  have "(192 + k) mod 64 = (k + 64 * 3) mod 64" by (simp add: add.commute)
  also have "\<dots> = k mod 64" by (rule mod_mult_self2)
  finally show ?thesis using assms by simp
qed

lemma mod64_64:
  assumes "k < 64" shows "(64 + k) mod 64 = (k::nat)"
proof -
  have "(64 + k) mod 64 = (k + 64 * 1) mod 64" by (simp add: add.commute)
  also have "\<dots> = k mod 64" by (rule mod_mult_self2)
  finally show ?thesis using assms by simp
qed

lemma decodeHeader_inline:
  "h0 < 0x80 \<Longrightarrow> decodeHeader (h0 # bs) = Inr (0, 1, False)"
  by (simp add: decodeHeader_def)

lemma decodeHeader_one_byte:
  "\<not> h0 < 0x80 \<Longrightarrow> h0 \<noteq> 0x81 \<Longrightarrow> h0 < 0xc0 \<Longrightarrow>
     decodeHeader (h0 # bs) = Inr (1, unat (h0 - 0x80), False)"
  by (simp add: decodeHeader_def)

lemma decodeHeader_inline_high:
  "0x80 \<le> h1 \<Longrightarrow> decodeHeader (0x81 # h1 # bs) = Inr (1, 1, False)"
  by (simp add: decodeHeader_def)

lemma decodeHeader_two_bytes:
  "0xc0 \<le> h0 \<Longrightarrow>
     decodeHeader (h0 # h1 # bs)
       = Inr (2, 64 + push_bit 8 (unat (h0 AND 63)) + unat h1, False)"
  by (auto simp: decodeHeader_def word_less_nat_alt word_le_nat_alt)

lemma decodeHeader_four_bytes:
  "h1 < 0x80 \<Longrightarrow>
     decodeHeader (0x81 # h1 # h2 # h3 # bs)
       = Inr (4, 16448 + push_bit 16 (unat (h1 AND 0x3f)) + push_bit 8 (unat h2) + unat h3,
              0x40 \<le> h1)"
  by (auto simp: decodeHeader_def word_less_nat_alt word_le_nat_alt)

lemma Encode_decodeHeader:
  assumes "length src < 4210752"
  shows "\<exists>hdr. Encode dst src = dst @ hdr @ src
           \<and> decodeHeader (hdr @ src @ rest) = Inr (length hdr, length src, False)"
proof -
  let ?n = "length src"
  consider (inline) "?n = 1" "src ! 0 < 128"
    | (one) "?n = 1" "\<not> src ! 0 < 128"
    | (short) "?n \<noteq> 1" "?n < 64"
    | (medium) "64 \<le> ?n" "?n < 16448"
    | (large) "16448 \<le> ?n"
    by linarith
  then show ?thesis
  proof cases
    case inline
    then obtain v where "src = [v]" by (cases src) auto
    with inline show ?thesis
      by (intro exI [of _ "[]"]) (simp add: Encode_def decodeHeader_inline)
  next
    case one
    then obtain v where "src = [v]" by (cases src) auto
    with one show ?thesis
      by (intro exI [of _ "[0x81]"])
         (simp add: Encode_def decodeHeader_inline_high word_le_nat_alt word_less_nat_alt)
  next
    case short
    define h0 :: byte where "h0 = 128 + of_nat ?n"
    have u0: "unat h0 = 128 + ?n"
      unfolding h0_def using short by (intro unat_128_add) simp
    have enc: "Encode dst src = dst @ [h0] @ src"
      using short by (simp add: Encode_def h0_def)
    have "\<not> h0 < 0x80" "h0 \<noteq> 0x81" "h0 < 0xc0" "unat (h0 - 0x80) = ?n"
      using u0 short by (simp_all add: word_less_nat_alt word_unat_eq_iff h0_def unat_of_nat)
    then show ?thesis
      using enc by (intro exI [of _ "[h0]"]) (simp add: decodeHeader_one_byte)
  next
    case medium
    define m where "m = ?n - 64"
    define h0 :: byte where "h0 = 0xc0 + of_nat (m div 256)"
    have m: "m div 256 < 64" "?n = 64 + m"
      using medium by (simp_all add: m_def)
    have u0: "unat h0 = 192 + m div 256"
      unfolding h0_def using m(1) by (rule unat_192_add)
    have enc: "Encode dst src = dst @ [h0, of_nat m] @ src"
      using medium by (simp add: Encode_def Let_def h0_def m_def drop_bit_eq_div)
    have "0xc0 \<le> h0"
      using u0 by (simp add: word_le_nat_alt)
    moreover have "unat (h0 AND 63) = m div 256"
      using mod64_192 [OF m(1)] by (simp add: unat_and63 u0)
    ultimately show ?thesis
      using enc m(2) split2 [of m]
      by (intro exI [of _ "[h0, of_nat m]"])
         (simp add: decodeHeader_two_bytes unat_of_nat push_bit_eq_mult)
  next
    case large
    define m where "m = ?n - 16448"
    define h1 :: byte where "h1 = of_nat (m div 65536)"
    have m: "m div 65536 < 64" "?n = 16448 + m"
      using large assms by (simp_all add: m_def)
    have u1: "unat h1 = m div 65536"
      unfolding h1_def using m(1) by (simp add: unat_of_nat)
    have enc: "Encode dst src = dst @ [0x81, h1, of_nat (m div 256), of_nat m] @ src"
      using large assms by (simp add: Encode_def Let_def h1_def m_def drop_bit_eq_div)
    have "h1 < 0x80" "\<not> 0x40 \<le> h1"
      using u1 m(1) by (simp_all add: word_less_nat_alt word_le_nat_alt)
    moreover have "unat (h1 AND 0x3f) = m div 65536"
      using m(1) by (simp add: unat_and63 u1)
    ultimately show ?thesis
      using enc m(2) split3 [of m]
      by (intro exI [of _ "[0x81, h1, of_nat (m div 256), of_nat m]"])
         (simp add: decodeHeader_four_bytes unat_of_nat push_bit_eq_mult)
  qed
qed

lemma go_append_nonempty: "xs \<noteq> [] \<Longrightarrow> go_append content xs = Some (bytes_of content @ xs)"
  by (cases content) (simp_all add: go_append_def bytes_of_def)

lemma Decode_loop_final:
  assumes "length src < 4210752"
  shows "Decode_loop content (Encode [] src @ rest) = Inr (bytes_of content @ src, rest)"
proof -
  obtain hdr where enc: "Encode [] src = hdr @ src"
    and dh: "decodeHeader (hdr @ src @ rest) = Inr (length hdr, length src, False)"
    using Encode_decodeHeader [OF assms, of "[]" rest] by auto
  show ?thesis
  proof (cases content)
    case None
    show ?thesis
      unfolding enc None
      by (subst Decode_loop.simps) (simp add: dh slice_def bytes_of_def)
  next
    case (Some ys)
    show ?thesis
      unfolding enc Some
      by (subst Decode_loop.simps) (simp add: dh slice_def bytes_of_def go_append_def)
  qed
qed

lemma spec_final_Encode:
  assumes "length p < 4210752"
  shows "spec_emit_header False p @ p = Encode [] p"
proof -
  let ?n = "length p"
  consider (empty) "?n = 0" | (inline) "?n = 1" "p ! 0 < 128"
    | (one) "?n = 1" "\<not> p ! 0 < 128"
    | (short) "1 < ?n" "?n \<le> 63"
    | (medium) "64 \<le> ?n" "?n \<le> 16447"
    | (large) "16448 \<le> ?n"
    by linarith
  then show ?thesis
  proof cases
    case empty
    then show ?thesis by (simp add: spec_emit_header_def Encode_def)
  next
    case inline
    then show ?thesis by (simp add: spec_emit_header_def Encode_def)
  next
    case one
    then show ?thesis by (simp add: spec_emit_header_def Encode_def)
  next
    case short
    have "(0x80 :: byte) OR of_nat ?n = 0x80 + of_nat ?n"
      using short by (intro byte_or_add) simp_all
    moreover have "p \<noteq> []"
      using short by auto
    ultimately show ?thesis
      using short by (simp add: spec_emit_header_def Encode_def Let_def)
  next
    case medium
    have "drop_bit 8 (?n - 64) < 64"
      using medium by (simp add: drop_bit_eq_div)
    then have "(0xC0 :: byte) OR of_nat (drop_bit 8 (?n - 64)) = 0xC0 + of_nat (drop_bit 8 (?n - 64))"
      by (intro byte_or_add) simp_all
    moreover have "p \<noteq> []"
      using medium by auto
    ultimately show ?thesis
      using medium by (simp add: spec_emit_header_def Encode_def Let_def byte_and255)
  next
    case large
    then have "p \<noteq> []"
      by auto
    then show ?thesis
      using assms large by (simp add: spec_emit_header_def Encode_def Let_def byte_and255)
  qed
qed

lemma spec_partial_decodeHeader:
  assumes "16448 \<le> length p" and "length p \<le> 4210751"
  shows "decodeHeader (spec_emit_header True p @ p @ rest) = Inr (4, length p, True)"
proof -
  define m where "m = length p - 16448"
  define h1 :: byte where "h1 = 0x40 + of_nat (m div 65536)"
  have m: "m div 65536 < 64" "length p = 16448 + m"
    using assms by (simp_all add: m_def)
  have u1: "unat h1 = 64 + m div 65536"
    unfolding h1_def using m(1) unat_byte_add [of 64 "m div 65536"] by simp
  have "(0x40 :: byte) OR of_nat (m div 65536) = h1"
    unfolding h1_def using m(1) by (intro byte_or_add) simp_all
  then have hdr: "spec_emit_header True p = [0x81, h1, of_nat (m div 256), of_nat m]"
    by (simp add: spec_emit_header_def Let_def m_def drop_bit_eq_div byte_and255)
  have "h1 < 0x80" "0x40 \<le> h1"
    using u1 m(1) by (simp_all add: word_less_nat_alt word_le_nat_alt)
  moreover have "unat (h1 AND 0x3f) = m div 65536"
    using mod64_64 [OF m(1)] by (simp add: unat_and63 u1)
  ultimately show ?thesis
    unfolding hdr using m(2) split3 [of m]
    by (simp add: decodeHeader_four_bytes unat_of_nat push_bit_eq_mult)
qed

lemma Decode_loop_pump:
  assumes "16448 \<le> c" and "c \<le> 4210751"
  shows "Decode_loop content (spec_pump c src @ rest) = Inr (bytes_of content @ src, rest)"
proof (induction "length src" arbitrary: src content rule: less_induct)
  case less
  show ?case
  proof (cases "c \<le> length src")
    case True
    let ?p = "take c src"
    let ?tail = "spec_pump c (drop c src) @ rest"
    have lp: "length ?p = c" using True by simp
    have mn: "min (length src) c = c" using True by simp
    have pump: "spec_pump c src @ rest = spec_emit_header True ?p @ ?p @ ?tail"
      using True assms(1) by (simp add: spec_pump.simps [of c src])
    have dh: "decodeHeader (spec_emit_header True ?p @ ?p @ ?tail) = Inr (4, c, True)"
      using spec_partial_decodeHeader [of ?p ?tail] assms lp by simp
    have l4: "length (spec_emit_header True ?p) = 4"
      by (simp add: spec_emit_header_def Let_def)
    have ne: "?p \<noteq> []" using lp assms(1) by auto
    have "length (drop c src) < length src"
      using True assms(1) by simp
    from less.hyps [OF this, of "Some (bytes_of content @ ?p)"]
    have IH: "Decode_loop (Some (bytes_of content @ ?p)) ?tail
                = Inr (bytes_of content @ src, rest)"
      by (simp add: bytes_of_def)
    show ?thesis
      unfolding pump
      by (subst Decode_loop.simps)
         (simp add: dh l4 mn slice_def go_append_nonempty [OF ne] IH)
  next
    case False
    then have "spec_pump c src @ rest = Encode [] src @ rest"
      using spec_final_Encode [of src] assms(2) by (simp add: spec_pump.simps [of c src])
    then show ?thesis
      using Decode_loop_final [of src content rest] False assms(2) by simp
  qed
qed

section \<open>The streaming encoder against the contiguous encoder\<close>

lemma length_concat_chunks:
  assumes "0 < c"
  shows "length s \<le> length (concat (chunks c s))"
proof (induction "length s" arbitrary: s rule: less_induct)
  case less
  show ?case
  proof (cases "c \<le> length s")
    case True
    then have "length (drop c s) < length s" using assms by simp
    from less.hyps [OF this] True assms show ?thesis
      by (simp add: chunks.simps [of c s] chunk_bytes_def)
  next
    case False
    then show ?thesis
      by (simp add: chunks.simps [of c s] chunk_bytes_def)
  qed
qed

lemma length_concat_chunks_small:
  assumes "16384 \<le> c" and "64 \<le> length s" and "length s \<le> 16447"
  shows "length (concat (chunks c s)) \<noteq> 2 + length s"
proof (cases "c \<le> length s")
  case True
  have "0 < c" using assms(1) by simp
  from length_concat_chunks [OF this, of "drop c s"]
  have "length s - c \<le> length (concat (chunks c (drop c s)))" by simp
  then have "4 + length s \<le> length (concat (chunks c s))"
    using True assms(1)
    by (simp add: chunks.simps [of c s] chunk_bytes_def partial_header_def)
  then show ?thesis by simp
next
  case False
  then have "concat (chunks c s) = final_header s @ s"
    by (simp add: chunks.simps [of c s] chunk_bytes_def)
  moreover have "length (final_header s) \<noteq> 2"
    using assms(2,3) by (simp add: final_header_def)
  ultimately show ?thesis by simp
qed

lemma concat_chunks_tiny:
  assumes "16384 \<le> c" and "length s \<le> 63"
  shows "concat (chunks c s) = Encode [] s"
  using assms by (auto simp: chunks.simps [of c s] chunk_bytes_def final_header_def Encode_def)

lemma length_Encode_medium:
  assumes "64 \<le> length s" and "length s \<le> 16447"
  shows "length (Encode [] s) = 2 + length s"
  using assms by (simp add: Encode_def Let_def)

text \<open>
  Within package \<open>cbs\<close> the two encoders agree on every blob that the contiguous one
  accepts.
\<close>

lemma concat_chunks_Encode_cbs:
  assumes "16384 \<le> c" and "length s < 16384"
  shows "Encode_cbs [] s = Some (concat (chunks c s))"
proof -
  have "concat (chunks c s) = final_header s @ s"
    using assms by (simp add: chunks.simps [of c s] chunk_bytes_def)
  moreover have "128 \<le> length s \<Longrightarrow>
      final_header s = [0x81, of_nat (drop_bit 8 (length s - 128)), of_nat (length s - 128)]"
    using assms(2) final_header_medium [of s] by (simp add: drop_bit_eq_div)
  ultimately show ?thesis
    using assms(2) by (auto simp: Encode_cbs_def Let_def final_header_def)
qed

section \<open>The small-only encoder and its panic\<close>

text \<open>
  Claim C10. The small-only \<open>Encode\<close> of \<open>cbe.go\<close> reaches its panic
  (``content too large for small-blob encoder'') exactly for contents of 16448 bytes
  and more: for every \<open>dst\<close> and every \<open>src\<close> shorter than 16448 bytes it returns
  normally.
\<close>

theorem Encode_small_panic_iff:
  "Encode_small dst src = None \<longleftrightarrow> 16448 \<le> length src"
  by (auto simp: Encode_small_def Let_def)

theorem Encode_small_panic_iff_witness:
  "Encode_small [] [0xab, 0xcd] \<noteq> None \<and> \<not> 16448 \<le> length [0xab, 0xcd :: byte]"
  using Encode_small_panic_iff [of "[]" "[0xab, 0xcd]"] by simp

section \<open>The two-byte header of the contiguous encoder\<close>

text \<open>
  Claim C7. For a content of \<open>L\<close> bytes with \<open>64 \<le> L \<le> 16447\<close>, \<open>Encode\<close> of
  \<open>cbe/cbe.go\<close> appends the two header bytes \<open>0xC0 | ((L - 64) >> 8)\<close> and
  \<open>(L - 64) & 0xFF\<close> and then the content as it is; a content of 64 bytes is encoded as
  \<open>0xC0 0x00\<close> and the content.
\<close>

theorem Encode_two_byte_header:
  assumes "64 \<le> length src" and "length src \<le> 16447"
  shows "Encode dst src
           = dst @ [0xC0 OR of_nat (drop_bit 8 (length src - 64)),
                    of_nat ((length src - 64) AND 0xFF)] @ src
         \<and> (length src = 64 \<longrightarrow> Encode dst src = dst @ [0xC0, 0x00] @ src)"
proof -
  have "drop_bit 8 (length src - 64) < 64"
    using assms by (simp add: drop_bit_eq_div)
  then have "(0xC0::byte) OR of_nat (drop_bit 8 (length src - 64))
               = 0xC0 + of_nat (drop_bit 8 (length src - 64))"
    by (intro byte_or_add) simp_all
  then show ?thesis
    using assms by (auto simp: Encode_def Let_def byte_of_nat_and255)
qed

theorem Encode_two_byte_header_witness:
  "64 \<le> length (replicate 64 (0x58 :: byte)) \<and> length (replicate 64 (0x58 :: byte)) \<le> 16447
   \<and> Encode [] (replicate 64 0x58) = [0xC0, 0x00] @ replicate 64 0x58"
  using Encode_two_byte_header [of "replicate 64 0x58" "[]"] by simp

section \<open>The error \<open>TooLong\<close>\<close>

lemma decodeHeader_small_TooLong:
  "decodeHeader_small b = Inl TooLong \<longleftrightarrow> 2 \<le> length b \<and> b ! 0 = 0x81 \<and> b ! 1 < 0x80"
  by (auto simp: decodeHeader_small_def word_le_nat_alt word_less_nat_alt)

lemma decodeHeader_error: "decodeHeader b = Inl e \<Longrightarrow> e = EOF"
  by (auto simp: decodeHeader_def Let_def split: if_splits)

lemma Decode_loop_error: "Decode_loop content b = Inl e \<Longrightarrow> e = EOF"
proof (induction content b rule: Decode_loop.induct)
  case (1 content b)
  show ?case
  proof (cases "decodeHeader b")
    case (Inl err)
    with 1 show ?thesis
      by (auto simp: Decode_loop.simps [of content b] dest: decodeHeader_error)
  next
    case (Inr t)
    obtain ofs n part where t: "t = (ofs, n, part)"
      by (cases t)
    show ?thesis
      using "1.prems" "1.IH" [OF Inr t [symmetric] refl _ _ refl refl] Inr t
      by (auto simp: Decode_loop.simps [of content b] Let_def split: if_splits)
  qed
qed

text \<open>
  Claim C8, as it is stated, fails: the small-only \<open>Decode\<close> answers \<open>TooLong\<close>
  to the two bytes \<open>0x81 0x00\<close>, which are the beginning of a four-byte header and
  not a complete one.
\<close>

theorem Decode_small_TooLong_incomplete_header:
  "\<not> (Decode_small [0x81, 0x00] = Inl TooLong
        \<longleftrightarrow> 4 \<le> length [0x81, 0x00 :: byte]
            \<and> [0x81, 0x00 :: byte] ! 0 = 0x81 \<and> [0x81, 0x00 :: byte] ! 1 < 0x80)"
  by (simp add: Decode_small_def decodeHeader_small_def)

text \<open>
  Claim C8, amended. The small-only \<open>Decode\<close> of \<open>cbe.go\<close> returns \<open>TooLong\<close>
  exactly when its input has at least two bytes, the first \<open>0x81\<close> and the second
  below \<open>0x80\<close>: the first two bytes of a four-byte header, whether the other two are
  there or not. The full \<open>Decode\<close> of \<open>cbe/cbe.go\<close> never returns \<open>TooLong\<close>, and its
  \<open>decodeHeader\<close> decodes a four-byte header: offset 4, length 16448 plus the 22 bits
  of the length field, partial when bit 6 of the second byte is set.
\<close>

theorem Decode_small_TooLong_iff:
  "(Decode_small b = Inl TooLong \<longleftrightarrow> 2 \<le> length b \<and> b ! 0 = 0x81 \<and> b ! 1 < 0x80)
   \<and> Decode b \<noteq> Inl TooLong
   \<and> (4 \<le> length b \<and> b ! 0 = 0x81 \<and> b ! 1 < 0x80 \<longrightarrow>
        decodeHeader b
          = Inr (4, 16448 + push_bit 16 (unat (b ! 1 AND 0x3f))
                      + push_bit 8 (unat (b ! 2)) + unat (b ! 3), 0x40 \<le> b ! 1))"
proof (intro conjI)
  show "Decode_small b = Inl TooLong \<longleftrightarrow> 2 \<le> length b \<and> b ! 0 = 0x81 \<and> b ! 1 < 0x80"
    using decodeHeader_small_TooLong [of b]
    by (auto simp: Decode_small_def split: sum.splits if_splits)
  show "Decode b \<noteq> Inl TooLong"
    using Decode_loop_error [of None b TooLong] by (auto simp: Decode_def)
  show "4 \<le> length b \<and> b ! 0 = 0x81 \<and> b ! 1 < 0x80 \<longrightarrow>
        decodeHeader b
          = Inr (4, 16448 + push_bit 16 (unat (b ! 1 AND 0x3f))
                      + push_bit 8 (unat (b ! 2)) + unat (b ! 3), 0x40 \<le> b ! 1)"
    by (auto simp: decodeHeader_def Let_def word_le_nat_alt word_less_nat_alt)
qed

theorem Decode_small_TooLong_iff_witness:
  "Decode_small [0x81, 0x00, 0x1C, 0x00] = Inl TooLong
   \<and> Decode [0x81, 0x00, 0x1C, 0x00] \<noteq> Inl TooLong
   \<and> decodeHeader [0x81, 0x00, 0x1C, 0x00] = Inr (4, 23616, False)"
  using Decode_small_TooLong_iff [of "[0x81, 0x00, 0x1C, 0x00]"]
  by (simp add: unat_and63)

section \<open>The streaming round trip\<close>

text \<open>
  Claim C2. For every finite sequence of bytes \<open>s\<close> and every chunk size between 16384
  and 2113535 set on the streaming encoder: \<open>SetChunkLen\<close> accepts the size,
  \<open>ReadFrom\<close> on \<open>s\<close> returns the length of \<open>s\<close> and no error, and the streaming
  decoder (\<open>header\<close> and \<open>WriteTo\<close>) on the bytes that the encoder wrote reports no
  error, writes exactly \<open>s\<close> to its sink and leaves nothing of its input.
\<close>

theorem streaming_round_trip:
  assumes "16384 \<le> chunkLen" and "chunkLen \<le> 2113535"
  shows "\<exists>e e' r' sink d'.
           SetChunkLen chunkLen (NewEncoder NewBuffer) = Some e
           \<and> ReadFrom e (NewReader s) = Some (Inr (length s), e', r')
           \<and> WriteTo (NewReader (written (enc_w e'))) NewBuffer = (Inr (length s), sink, d')
           \<and> written sink = s \<and> rdata d' = []"
proof -
  obtain e e' where e: "SetChunkLen chunkLen (NewEncoder NewBuffer) = Some e"
    and rf: "ReadFrom e (NewReader s) = Some (Inr (length s), e', \<lparr>rdata = [], rerr = EOF\<rparr>)"
    and ws: "wlog (enc_w e') = chunks chunkLen s"
    using ReadFrom_configured [OF assms, of s] by blast
  have "wroom NewBuffer = None" by (simp add: NewBuffer_def)
  from WriteTo_loop_chunks [OF assms this, of s "[]" EOF 0]
  obtain sink where "WriteTo_loop NewBuffer \<lparr>rdata = concat (chunks chunkLen s), rerr = EOF\<rparr> 0
                 = (Inr (length s), sink, \<lparr>rdata = [], rerr = EOF\<rparr>)"
    and "written sink = written NewBuffer @ s"
    by auto
  then have "WriteTo (NewReader (written (enc_w e'))) NewBuffer
               = (Inr (length s), sink, \<lparr>rdata = [], rerr = EOF\<rparr>)"
    and "written sink = s"
    using ws by (simp_all add: WriteTo_def NewReader_def written_def NewBuffer_def)
  with e rf show ?thesis by force
qed

theorem streaming_round_trip_witness:
  "(16384 :: nat) \<le> 16384 \<and> (16384 :: nat) \<le> 2113535
   \<and> (\<exists>e e' r' sink d'.
           SetChunkLen 16384 (NewEncoder NewBuffer) = Some e
           \<and> ReadFrom e (NewReader [0xab, 0xcd]) = Some (Inr (length [0xab, 0xcd :: byte]), e', r')
           \<and> WriteTo (NewReader (written (enc_w e'))) NewBuffer
                = (Inr (length [0xab, 0xcd :: byte]), sink, d')
           \<and> written sink = [0xab, 0xcd] \<and> rdata d' = [])"
  using streaming_round_trip [of 16384 "[0xab, 0xcd]"] by simp

section \<open>The chunks of a streaming encode: one final chunk, at the end\<close>

text \<open>
  Claim C5. For every finite source and every legal chunk size, \<open>ReadFrom\<close> returns,
  and the chunks it has written (one for each call of \<open>Write\<close>) are partial chunks,
  none or more, followed by one final chunk, which is the last one: no chunk follows a
  final chunk. The decoder's \<open>header\<close> tells partial from final.
\<close>

theorem streaming_termination:
  assumes "16384 \<le> chunkLen" and "chunkLen \<le> 2113535"
  shows "\<exists>e e' r' ps f.
           SetChunkLen chunkLen (NewEncoder NewBuffer) = Some e
           \<and> ReadFrom e (NewReader s) = Some (Inr (length s), e', r')
           \<and> wlog (enc_w e') = ps @ [f]
           \<and> list_all (\<lambda>p. map_option snd (chunk_info p) = Some True) ps
           \<and> map_option snd (chunk_info f) = Some False"
proof -
  obtain e e' where e: "SetChunkLen chunkLen (NewEncoder NewBuffer) = Some e"
    and rf: "ReadFrom e (NewReader s) = Some (Inr (length s), e', \<lparr>rdata = [], rerr = EOF\<rparr>)"
    and ws: "wlog (enc_w e') = chunks chunkLen s"
    using ReadFrom_configured [OF assms, of s] by blast
  have "0 < chunkLen" using assms(1) by simp
  from chunks_shape [OF this, of s]
  obtain ps q where sh: "chunks chunkLen s = ps @ [chunk_bytes False q]" "length q < chunkLen"
      "\<forall>p \<in> set ps. \<exists>q'. p = chunk_bytes True q' \<and> length q' = chunkLen"
    by blast
  have "map_option snd (chunk_info (chunk_bytes False q)) = Some False"
    using sh(2) assms(2) by (simp add: chunk_info_chunk_bytes)
  moreover have "list_all (\<lambda>p. map_option snd (chunk_info p) = Some True) ps"
    unfolding list_all_iff
  proof
    fix p assume "p \<in> set ps"
    with sh(3) obtain q' where "p = chunk_bytes True q'" "length q' = chunkLen" by blast
    then show "map_option snd (chunk_info p) = Some True"
      using assms by (simp add: chunk_info_chunk_bytes)
  qed
  ultimately show ?thesis
    using e rf ws sh(1) by force
qed

theorem streaming_termination_witness:
  "(16384 :: nat) \<le> 16384 \<and> (16384 :: nat) \<le> 2113535
   \<and> (\<exists>e e' r' ps f.
           SetChunkLen 16384 (NewEncoder NewBuffer) = Some e
           \<and> ReadFrom e (NewReader [0xab, 0xcd]) = Some (Inr (length [0xab, 0xcd :: byte]), e', r')
           \<and> wlog (enc_w e') = ps @ [f]
           \<and> list_all (\<lambda>p. map_option snd (chunk_info p) = Some True) ps
           \<and> map_option snd (chunk_info f) = Some False)"
  using streaming_termination [of 16384 "[0xab, 0xcd]"] by simp

section \<open>The payload of a partial chunk\<close>




section \<open>A source of 40000 bytes with chunk size 16384\<close>

text \<open>
  Claim C6, as it is stated, fails: what the streaming encoder with chunk size 16384
  writes for 40000 bytes is not a partial chunk of 16384 bytes with the header
  \<open>0x81 0x40 0x00 0x00\<close> followed by a final chunk of 23616 bytes with the header
  \<open>0x81 0x00 0x1C 0x00\<close>.
\<close>

theorem chunks_of_40000_bytes_counterexample:
  "SetChunkLen 16384 (NewEncoder NewBuffer)
     = Some \<lparr>enc_w = NewBuffer, enc_buf = Some (replicate (4 + 16384) 0), enc_spare = []\<rparr>
   \<and> writes_of (ReadFrom \<lparr>enc_w = NewBuffer, enc_buf = Some (replicate (4 + 16384) 0), enc_spare = []\<rparr>
                  (NewReader (replicate 40000 0)))
       \<noteq> Some [[0x81, 0x40, 0x00, 0x00] @ replicate 16384 0,
                [0x81, 0x00, 0x1C, 0x00] @ replicate 23616 0]"
  using SetChunkLen_NewEncoder [of 16384 NewBuffer]
    writes_of_configured [of 16384 "replicate 40000 0"]
    chunks_40000 [of "replicate 40000 0"]
  by simp

text \<open>
  Claim C6, amended. With chunk size 16384 and a source of 40000 bytes the streaming
  encoder emits exactly three chunks: two partial chunks with a payload of 16384 bytes
  each and the four-byte header \<open>0x81 0x60 0x00 0x00\<close>, then a final chunk with the
  remaining 7232 bytes and the three-byte header \<open>0x81 0x1B 0xC0\<close>.
\<close>

theorem chunks_of_40000_bytes:
  assumes "length s = 40000"
  shows "\<exists>e e' r'.
           SetChunkLen 16384 (NewEncoder NewBuffer) = Some e
           \<and> ReadFrom e (NewReader s) = Some (Inr 40000, e', r')
           \<and> wlog (enc_w e')
               = [[0x81, 0x60, 0x00, 0x00] @ take 16384 s,
                  [0x81, 0x60, 0x00, 0x00] @ take 16384 (drop 16384 s),
                  [0x81, 0x1B, 0xC0] @ drop 32768 s]"
  using ReadFrom_configured [of 16384 s] assms chunks_40000 [OF assms] by auto

theorem chunks_of_40000_bytes_witness:
  "length (replicate 40000 (0 :: byte)) = 40000
   \<and> (\<exists>e e' r'.
           SetChunkLen 16384 (NewEncoder NewBuffer) = Some e
           \<and> ReadFrom e (NewReader (replicate 40000 0)) = Some (Inr 40000, e', r')
           \<and> wlog (enc_w e')
               = [[0x81, 0x60, 0x00, 0x00] @ replicate 16384 0,
                  [0x81, 0x60, 0x00, 0x00] @ replicate 16384 0,
                  [0x81, 0x1B, 0xC0] @ replicate 7232 0])"
  using chunks_of_40000_bytes [of "replicate 40000 0"] by simp

section \<open>The zig-zag encoding of signed integers\<close>

text \<open>
  Claim C9. \<open>Encoder.Int64\<close> hands to \<open>Uint64\<close> the value \<open>zigzag v\<close>, which is
  \<open>2v\<close> for \<open>v \<ge> 0\<close> and \<open>2(-v-1)+1\<close> for \<open>v < 0\<close>; \<open>Decoder.Int64\<close> returns
  \<open>unzigzag u\<close> for the decoded unsigned \<open>u\<close>, which is \<open>u/2\<close> for an even \<open>u\<close> and
  \<open>-((u-1)/2)-1\<close> for an odd one; and for every \<open>int64\<close> value \<open>v\<close>, encoding \<open>v\<close>
  with \<open>Encoder.Int64\<close> (on a new encoder that writes to a buffer) returns no error
  and \<open>Decoder.Int64\<close> on the bytes written returns \<open>v\<close> and leaves nothing of
  its input.
\<close>

theorem zigzag_round_trip:
  "uint (zigzag v) = (if 0 \<le> sint v then 2 * sint v else 2 * (- sint v - 1) + 1)
   \<and> sint (unzigzag u) = (if even (uint u) then uint u div 2 else - ((uint u - 1) div 2) - 1)
   \<and> (\<exists>e'. Encoder_Int64 (NewEncoder NewBuffer) v = Some (None, e')
            \<and> Decoder_Int64 (NewReader (written (enc_w e'))) = (Inr v, \<lparr>rdata = [], rerr = EOF\<rparr>))"
proof (intro conjI)
  show "uint (zigzag v) = (if 0 \<le> sint v then 2 * sint v else 2 * (- sint v - 1) + 1)"
    by (rule zigzag_uint)
  show "sint (unzigzag u) = (if even (uint u) then uint u div 2 else - ((uint u - 1) div 2) - 1)"
    by (rule unzigzag_sint)
  let ?b = "trim_zeros (PutUint64 (zigzag v))"
  obtain e' where enc: "Encoder_Bytes (NewEncoder NewBuffer) ?b = Some (None, e')"
    and wr: "written (enc_w e') = concat (chunks 16384 ?b)"
    using Encoder_Bytes_default [of ?b] by blast
  have len: "length (PutUint64 (zigzag v)) = 8"
    by (simp add: PutUint64_def)
  have le8: "length ?b \<le> 8"
    using trim_zeros_length [of "PutUint64 (zigzag v)"] len by simp
  have pad: "replicate (8 - length ?b) 0 @ ?b = PutUint64 (zigzag v)"
    using trim_zeros_pad [of "PutUint64 (zigzag v)"] len by simp
  have "Decoder_Bytes (NewReader (written (enc_w e'))) = (Inr ?b, \<lparr>rdata = [], rerr = EOF\<rparr>)"
    unfolding wr by (rule Decoder_Bytes_chunks) simp_all
  then have "Decoder_Uint64 (NewReader (written (enc_w e')))
               = (Inr (zigzag v), \<lparr>rdata = [], rerr = EOF\<rparr>)"
    using le8 pad by (simp add: Decoder_Uint64_def BigEndian_PutUint64)
  then have "Decoder_Int64 (NewReader (written (enc_w e'))) = (Inr v, \<lparr>rdata = [], rerr = EOF\<rparr>)"
    by (simp add: Decoder_Int64_def unzigzag_zigzag)
  with enc show "\<exists>e'. Encoder_Int64 (NewEncoder NewBuffer) v = Some (None, e')
            \<and> Decoder_Int64 (NewReader (written (enc_w e'))) = (Inr v, \<lparr>rdata = [], rerr = EOF\<rparr>)"
    by (auto simp: Encoder_Int64_def Encoder_Uint64_def)
qed

section \<open>The contiguous round trip\<close>

text \<open>
  Claim C1. For every byte slice \<open>src\<close>, \<open>Decode(Encode(nil, src))\<close> of \<open>cbe/cbe.go\<close>
  returns a content equal to \<open>src\<close>, an empty remainder and no error. For contents
  of 4210752 bytes and more, \<open>Encode\<close> is the streaming encoder of package \<open>cbe\<close> as
  the specification describes it.
\<close>

theorem contiguous_round_trip: "Decode (Encode [] src) = Inr (src, [])"
proof (cases "length src < 4210752")
  case True
  then show ?thesis
    using Decode_loop_final [of src None "[]"] by (simp add: Decode_def bytes_of_def)
next
  case False
  then have "Encode [] src = spec_pump spec_MaxChunkLen src"
    by (simp add: Encode_def)
  then show ?thesis
    using Decode_loop_pump [of spec_MaxChunkLen None src "[]"]
    by (simp add: Decode_def bytes_of_def spec_MaxChunkLen_def)
qed

section \<open>Small blobs: the streaming encoder and the contiguous encoder\<close>

text \<open>
  Claim C3, as it is stated, fails: for a content of 64 bytes the streaming encoder
  (here with chunk size 16384) writes the one header byte \<open>0xC0\<close> and the content,
  the contiguous \<open>Encode\<close> of \<open>cbe/cbe.go\<close> the two header bytes \<open>0xC0 0x00\<close> and the
  content.
\<close>

theorem small_blob_canonicality_counterexample:
  "SetChunkLen 16384 (NewEncoder NewBuffer)
     = Some \<lparr>enc_w = NewBuffer, enc_buf = Some (replicate (4 + 16384) 0), enc_spare = []\<rparr>
   \<and> map_option concat
         (writes_of (ReadFrom \<lparr>enc_w = NewBuffer, enc_buf = Some (replicate (4 + 16384) 0), enc_spare = []\<rparr>
                       (NewReader (replicate 64 0x58))))
       = Some ([0xC0] @ replicate 64 0x58)
   \<and> Encode [] (replicate 64 0x58) = [0xC0, 0x00] @ replicate 64 0x58
   \<and> [0xC0] @ replicate 64 0x58 \<noteq> [0xC0, 0x00] @ replicate 64 (0x58 :: byte)"
proof -
  have "chunks 16384 (replicate 64 0x58) = [[0xC0] @ replicate 64 0x58]"
    by (simp add: chunks.simps [of 16384 "replicate 64 0x58"] chunk_bytes_def final_header_def)
  moreover have "Encode [] (replicate 64 0x58) = [0xC0, 0x00] @ replicate 64 0x58"
    by (simp add: Encode_def)
  moreover have "[0xC0] @ replicate 64 0x58 \<noteq> [0xC0, 0x00] @ replicate 64 (0x58 :: byte)"
  proof
    assume "[0xC0] @ replicate 64 0x58 = [0xC0, 0x00] @ replicate 64 (0x58 :: byte)"
    then have "length ([0xC0] @ replicate 64 (0x58 :: byte))
                 = length ([0xC0, 0x00] @ replicate 64 (0x58 :: byte))"
      by (rule arg_cong)
    then show False by simp
  qed
  ultimately show ?thesis
    using SetChunkLen_NewEncoder [of 16384 NewBuffer]
      writes_of_configured [of 16384 "replicate 64 0x58"]
    by simp
qed

text \<open>
  Claim C3, amended. For every content \<open>s\<close> of at most 63 bytes and every legal chunk
  size, the streaming encoder writes exactly the bytes that the contiguous \<open>Encode\<close>
  of \<open>cbe/cbe.go\<close> returns for \<open>s\<close>; for a content of 64 to 16447 bytes the two differ.
\<close>

theorem small_blob_canonicality:
  assumes "16384 \<le> chunkLen" and "chunkLen \<le> 2113535" and "length s \<le> 16447"
  shows "\<exists>e e' r'.
           SetChunkLen chunkLen (NewEncoder NewBuffer) = Some e
           \<and> ReadFrom e (NewReader s) = Some (Inr (length s), e', r')
           \<and> (written (enc_w e') = Encode [] s \<longleftrightarrow> length s \<le> 63)"
proof -
  obtain e e' where e: "SetChunkLen chunkLen (NewEncoder NewBuffer) = Some e"
    and rf: "ReadFrom e (NewReader s) = Some (Inr (length s), e', \<lparr>rdata = [], rerr = EOF\<rparr>)"
    and ws: "wlog (enc_w e') = chunks chunkLen s"
    using ReadFrom_configured [OF assms(1,2), of s] by blast
  have "written (enc_w e') = Encode [] s \<longleftrightarrow> length s \<le> 63"
  proof (cases "length s \<le> 63")
    case True
    then show ?thesis
      using concat_chunks_tiny [OF assms(1) True] ws by (simp add: written_def)
  next
    case False
    then have "64 \<le> length s" by simp
    from length_concat_chunks_small [OF assms(1) this assms(3)]
      length_Encode_medium [OF this assms(3)]
    have "concat (chunks chunkLen s) \<noteq> Encode [] s"
      by metis
    then show ?thesis
      using False ws by (simp add: written_def)
  qed
  with e rf show ?thesis by blast
qed

theorem small_blob_canonicality_witness:
  "(16384 :: nat) \<le> 16384 \<and> (16384 :: nat) \<le> 2113535 \<and> length [0xab, 0xcd :: byte] \<le> 16447
   \<and> (\<exists>e e' r'.
           SetChunkLen 16384 (NewEncoder NewBuffer) = Some e
           \<and> ReadFrom e (NewReader [0xab, 0xcd]) = Some (Inr (length [0xab, 0xcd :: byte]), e', r')
           \<and> written (enc_w e') = Encode [] [0xab, 0xcd])"
  using small_blob_canonicality [of 16384 "[0xab, 0xcd]"] by simp

end
